theory Spec2Isabelle
  imports Complex_Main "HOL-Library.Word"
begin

section \<open>JavaScript numbers\<close>

text \<open>
  A JavaScript \<open>number\<close> is an IEEE 754 binary64 value. It is modelled as the real it
  denotes, together with the three non-finite values. Addition, multiplication and division
  return the correctly rounded result: \<open>roundFinite\<close> rounds a real to the nearest double,
  ties to the even significand, with 53 significant bits counted from the binade of the
  argument and the fixed spacing \<open>2 powi (- 1074)\<close> below \<open>2 powi (- 1022)\<close>;
  \<open>double\<close> turns a rounded magnitude of \<open>2 ^ 1024\<close> or more into an infinity. Negation
  and the absolute value are exact. The sign of zero is not modelled: it could only show in a
  division by zero, and the one divisor that can be zero below is built from an array
  length. \<open>NaN\<close> is what arithmetic yields on \<open>undefined\<close>, the value of a typed-array
  read past the end.
\<close>

datatype jsnum = Num real | PosInf | NegInf | NaN

definition roundHalfEven :: "real \<Rightarrow> int" where
  "roundHalfEven y =
     (let f = \<lfloor>y\<rfloor>; d = y - of_int f
      in if d < 1 / 2 then f else if 1 / 2 < d then f + 1 else if even f then f else f + 1)"

function binadeUp :: "real \<Rightarrow> int" where
  "binadeUp x = (if 2 \<le> x then binadeUp (x / 2) + 1 else 0)"
  by pat_completeness auto
termination
proof (relation "measure (\<lambda>x. nat \<lfloor>x\<rfloor>)")
  show "wf (measure (\<lambda>x. nat \<lfloor>x\<rfloor>))" by simp
next
  fix x :: real assume "2 \<le> x"
  then have "\<lfloor>x / 2\<rfloor> < \<lfloor>x\<rfloor>" by linarith
  moreover have "0 < \<lfloor>x\<rfloor>" using \<open>2 \<le> x\<close> by linarith
  ultimately show "(x / 2, x) \<in> measure (\<lambda>x. nat \<lfloor>x\<rfloor>)" by simp
qed

function binadeDown :: "real \<Rightarrow> int" where
  "binadeDown x = (if 0 < x \<and> x < 1 then binadeDown (2 * x) - 1 else 0)"
  by pat_completeness auto
termination
proof (relation "measure (\<lambda>x. nat \<lfloor>1 / x\<rfloor>)")
  show "wf (measure (\<lambda>x. nat \<lfloor>1 / x\<rfloor>))" by simp
next
  fix x :: real assume a: "0 < x \<and> x < 1"
  define y where "y = 1 / x"
  have "1 < y" using a by (simp add: y_def)
  then have pos: "0 < \<lfloor>y\<rfloor>" by linarith
  have "\<lfloor>y / 2\<rfloor> < \<lfloor>y\<rfloor>"
  proof (cases "2 \<le> y")
    case True
    then have "y / 2 \<le> y - 1" by simp
    then have "\<lfloor>y / 2\<rfloor> \<le> \<lfloor>y - 1\<rfloor>" by (rule floor_mono)
    then show ?thesis by simp
  next
    case False
    then have "\<lfloor>y / 2\<rfloor> = 0" using \<open>1 < y\<close> by (simp add: floor_eq_iff)
    then show ?thesis using pos by simp
  qed
  then have lt: "\<lfloor>1 / (2 * x)\<rfloor> < \<lfloor>1 / x\<rfloor>"
    unfolding y_def by (simp add: mult.commute)
  have pos': "0 < \<lfloor>1 / x\<rfloor>" using pos unfolding y_def .
  show "(2 * x, x) \<in> measure (\<lambda>x. nat \<lfloor>1 / x\<rfloor>)"
    unfolding in_measure using lt pos' by linarith
qed

declare binadeUp.simps [simp del] binadeDown.simps [simp del]

definition binade :: "real \<Rightarrow> int" where
  "binade x = (if 1 \<le> x then binadeUp x else binadeDown x)"

definition roundFinite :: "real \<Rightarrow> real" where
  "roundFinite x =
     (let e = max (binade \<bar>x\<bar>) (- 1022);
          ulp = 2 powi (e - 52)
      in ulp * of_int (roundHalfEven (x / ulp)))"

definition double :: "real \<Rightarrow> jsnum" where
  "double x =
     (let r = roundFinite x
      in if 2 ^ 1024 \<le> \<bar>r\<bar> then (if 0 < x then PosInf else NegInf) else Num r)"

fun jneg :: "jsnum \<Rightarrow> jsnum" where
  "jneg (Num x) = Num (- x)"
| "jneg PosInf = NegInf"
| "jneg NegInf = PosInf"
| "jneg NaN = NaN"

fun jadd :: "jsnum \<Rightarrow> jsnum \<Rightarrow> jsnum" where
  "jadd NaN _ = NaN"
| "jadd _ NaN = NaN"
| "jadd (Num x) (Num y) = double (x + y)"
| "jadd PosInf NegInf = NaN"
| "jadd NegInf PosInf = NaN"
| "jadd PosInf _ = PosInf"
| "jadd _ PosInf = PosInf"
| "jadd NegInf _ = NegInf"
| "jadd _ NegInf = NegInf"

definition jsub :: "jsnum \<Rightarrow> jsnum \<Rightarrow> jsnum" where
  "jsub a b = jadd a (jneg b)"

fun jscale :: "real \<Rightarrow> jsnum \<Rightarrow> jsnum" where
  \<comment> \<open>a finite factor times an infinity\<close>
  "jscale x i = (if x = 0 then NaN else if 0 < x then i else jneg i)"

fun jmul :: "jsnum \<Rightarrow> jsnum \<Rightarrow> jsnum" where
  "jmul NaN _ = NaN"
| "jmul _ NaN = NaN"
| "jmul (Num x) (Num y) = double (x * y)"
| "jmul (Num x) i = jscale x i"
| "jmul i (Num y) = jscale y i"
| "jmul PosInf i = i"
| "jmul NegInf i = jneg i"

fun jdiv :: "jsnum \<Rightarrow> jsnum \<Rightarrow> jsnum" where
  "jdiv NaN _ = NaN"
| "jdiv _ NaN = NaN"
| "jdiv (Num x) (Num y) =
     (if y \<noteq> 0 then double (x / y)
      else if x = 0 then NaN
      else if 0 < x then PosInf else NegInf)"
| "jdiv (Num x) _ = Num 0"
| "jdiv i (Num y) = (if 0 \<le> y then i else jneg i)"
| "jdiv _ _ = NaN"

fun jabs :: "jsnum \<Rightarrow> jsnum" where
  "jabs (Num x) = Num \<bar>x\<bar>"
| "jabs NaN = NaN"
| "jabs _ = PosInf"

fun jgt :: "jsnum \<Rightarrow> jsnum \<Rightarrow> bool" where
  \<comment> \<open>the comparison \<open>a > b\<close>: false as soon as one side is \<open>NaN\<close>\<close>
  "jgt NaN _ = False"
| "jgt _ NaN = False"
| "jgt (Num x) (Num y) = (y < x)"
| "jgt PosInf PosInf = False"
| "jgt PosInf _ = True"
| "jgt NegInf _ = False"
| "jgt _ NegInf = True"
| "jgt _ _ = False"

section \<open>Frame differencer (hooks/useVideoProcessor.ts)\<close>

text \<open>
  Pixel data is a \<open>Uint8ClampedArray\<close>: a list of bytes, four (R, G, B, A) per pixel.
\<close>

type_synonym pixels = "8 word list"

definition COMPARISON_CANVAS_WIDTH :: nat where
  "COMPARISON_CANVAS_WIDTH = 48"

definition DIFFERENCE_THRESHOLD :: real where
  "DIFFERENCE_THRESHOLD = 15"

definition MIN_SCENE_FRAMES :: nat where
  "MIN_SCENE_FRAMES = 10"

definition rd :: "pixels \<Rightarrow> nat \<Rightarrow> jsnum" where
  \<comment> \<open>\<open>data[i]\<close> used as an operand: \<open>undefined\<close> (hence \<open>NaN\<close>) out of range\<close>
  "rd d i = (if i < length d then Num (real (unat (d ! i))) else NaN)"

definition gray :: "pixels \<Rightarrow> nat \<Rightarrow> jsnum" where
  \<comment> \<open>a decimal literal is the double nearest to it\<close>
  "gray d i =
     jadd (jadd (jmul (double 0.299) (rd d i)) (jmul (double 0.587) (rd d (i + 1))))
          (jmul (double 0.114) (rd d (i + 2)))"

function diffLoop :: "pixels \<Rightarrow> pixels \<Rightarrow> nat \<Rightarrow> jsnum \<Rightarrow> jsnum" where
  "diffLoop data1 data2 i diff =
     (if i < length data1 then
        let gray1 = gray data1 i;
            gray2 = gray data2 i
        in diffLoop data1 data2 (i + 4) (jadd diff (jabs (jsub gray1 gray2)))
      else diff)"
  by pat_completeness auto
termination
  by (relation "measure (\<lambda>(data1, data2, i, diff). length data1 - i)") auto

declare diffLoop.simps [simp del]

definition calculateFrameDifference :: "pixels \<Rightarrow> pixels \<Rightarrow> jsnum" where
  "calculateFrameDifference data1 data2 =
     (let diff = diffLoop data1 data2 0 (Num 0)
      in jmul (jdiv diff (jmul (Num 255) (jdiv (Num (real (length data1))) (Num 4))))
              (Num 100))"


section \<open>Scene segmentation (hooks/useVideoProcessor.ts)\<close>

text \<open>
  The effect body of \<open>useVideoProcessor\<close> is modelled from the \<open>loadedmetadata\<close>
  handler on. Everything the browser decides is an oracle of the run (\<open>env\<close>): whether
  the abort signal is set when it is read, whether a seek fires \<open>seeked\<close> within 5000 ms
  and which two frames are then drawn, and whether gif.js finishes a render within 20000 ms.
  High-resolution images are opaque values of type \<open>'img\<close>. \<open>video.duration\<close> and
  the settings are finite numbers; the sample count, the scaled size, the frame delay and
  the progress percentage are computed from them over the reals, without rounding. Two
  things lie outside the model: the \<open>error\<close> event of the video element, and a
  comparison canvas of height zero (a frame more than ninety-six times wider than high), on
  which \<open>getImageData\<close> throws.
\<close>

datatype error =
    DimensionsUnknown    \<comment> \<open>"Could not determine video dimensions. The file may be invalid."\<close>
  | SeekTimeout nat      \<comment> \<open>"Video seek timed out at ...s", for the sample index\<close>
  | RenderTimeout nat    \<comment> \<open>"GIF rendering timed out for Scene n"\<close>
  | NoScenesDetected     \<comment> \<open>"No scenes could be detected. ..."\<close>
  | TypeError            \<comment> \<open>a property read on \<open>undefined\<close>\<close>

datatype resolution = Original | MaxDimension real

record OptimizationSettings =
  resolution :: resolution
  frameRate :: real
  quality :: real
  dither :: bool

text \<open>
  One record serves both frame types of the repository: \<open>{ data, delay }\<close> of a scene
  and \<open>ParsedGifFrame\<close>, which calls the first field \<open>imageData\<close>.
\<close>

record 'img frame =
  data :: 'img
  delay :: real

record 'img GifScene =
  id' :: string
  dataUrl :: string
  frames :: "'img frame list"
  isSelected :: bool
  name :: string

record video =
  duration :: real
  videoWidth :: nat
  videoHeight :: nat

record 'img env =
  contexts :: bool
  abortedAtStart :: bool
  abortedAt :: "nat \<Rightarrow> bool"
  seek :: "nat \<Rightarrow> ('img \<times> pixels) option"
  render :: "'img frame list \<Rightarrow> nat \<Rightarrow> string option"

text \<open>The hook's state followed by the locals of the handler.\<close>

record 'img run =
  processedScenes :: "'img GifScene list"
  isProcessing :: bool
  progress :: real
  error :: "error option"
  lastFrameData :: "pixels option"
  currentSceneFrames :: "'img frame list"
  scenes :: "'img GifScene list"
  sceneCount :: nat

text \<open>
  How a block of statements ends: it falls through, it executes \<open>return\<close>, or a promise
  it awaits rejects. The state is the one reached at that point.
\<close>

datatype 's outcome = Normal 's | Return 's | Throw error 's

fun showNat :: "nat \<Rightarrow> string" where
  "showNat n =
     (if n < 10 then [''0123456789'' ! n]
      else showNat (n div 10) @ [''0123456789'' ! (n mod 10)])"

declare showNat.simps [simp del]

definition scaledDimensions :: "resolution \<Rightarrow> nat \<Rightarrow> nat \<Rightarrow> int \<times> int" where
  "scaledDimensions res w h =
     (case res of
        Original \<Rightarrow> (int w, int h)
      | MaxDimension r \<Rightarrow>
          let largerDim = max w h
          in if r < real largerDim then
               let scale = r / real largerDim
               in (\<lfloor>real w * scale\<rfloor>, \<lfloor>real h * scale\<rfloor>)
             else (int w, int h))"

definition createGifFromFrames ::
  "'img env \<Rightarrow> string option \<Rightarrow> 'img frame list \<Rightarrow> nat \<Rightarrow> error + 'img GifScene option" where
  \<comment> \<open>\<open>baseName\<close> is tested for truthiness: \<open>null\<close> and the empty string both give
      the default name\<close>
  "createGifFromFrames e baseName fs sceneId =
     (if length fs = 0 then Inr None
      else case render e fs sceneId of
             None \<Rightarrow> Inl (RenderTimeout sceneId)
           | Some url \<Rightarrow>
               Inr (Some \<lparr>id' = showNat sceneId, dataUrl = url, frames = fs, isSelected = False,
                          name = (case baseName of
                                    Some b \<Rightarrow>
                                      if b = [] then ''Scene '' @ showNat sceneId
                                      else b @ '' '' @ showNat sceneId
                                  | None \<Rightarrow> ''Scene '' @ showNat sceneId)\<rparr>))"

definition emitScene :: "'img env \<Rightarrow> string option \<Rightarrow> 'img run \<Rightarrow> 'img run outcome" where
  \<comment> \<open>\<open>sceneCount++\<close>, the awaited \<open>createGifFromFrames\<close>, and the push of its result\<close>
  "emitScene e baseName st =
     (let st1 = st\<lparr>sceneCount := sceneCount st + 1\<rparr>
      in case createGifFromFrames e baseName (currentSceneFrames st1) (sceneCount st1) of
           Inl err \<Rightarrow> Throw err st1
         | Inr None \<Rightarrow> Normal st1
         | Inr (Some newScene) \<Rightarrow>
             Normal (st1\<lparr>scenes := scenes st1 @ [newScene],
                         processedScenes := scenes st1 @ [newScene]\<rparr>))"

definition isSceneCut :: "pixels option \<Rightarrow> pixels \<Rightarrow> bool" where
  "isSceneCut lastFrame currentFrameData =
     (case lastFrame of
        Some l \<Rightarrow> jgt (calculateFrameDifference currentFrameData l) (Num DIFFERENCE_THRESHOLD)
      | None \<Rightarrow> True)"

definition processSample ::
  "OptimizationSettings \<Rightarrow> string option \<Rightarrow> 'img env \<Rightarrow> int \<Rightarrow> nat \<Rightarrow> 'img run
     \<Rightarrow> 'img run outcome" where
  \<comment> \<open>one iteration of the sampling loop, for the sample index \<open>i\<close>; the loop runs
      only when \<open>totalFramesToProcess\<close> is positive, so \<open>frameRate\<close> is not zero here\<close>
  "processSample settings baseName e totalFramesToProcess i st =
     (if abortedAt e i then Return st
      else case seek e i of
        None \<Rightarrow> Throw (SeekTimeout i) st
      | Some (highResFrameData, currentFrameData) \<Rightarrow>
          (case (if isSceneCut (lastFrameData st) currentFrameData
                    \<and> MIN_SCENE_FRAMES \<le> length (currentSceneFrames st)
                 then (case emitScene e baseName st of
                         Normal st1 \<Rightarrow> Normal (st1\<lparr>currentSceneFrames := []\<rparr>)
                       | other \<Rightarrow> other)
                 else Normal st) of
             Normal st2 \<Rightarrow>
               Normal (st2\<lparr>currentSceneFrames :=
                              currentSceneFrames st2
                                @ [\<lparr>data = highResFrameData, delay = 1000 / frameRate settings\<rparr>],
                           lastFrameData := Some currentFrameData,
                           progress := real (i + 1) / real_of_int totalFramesToProcess * 100\<rparr>)
           | other \<Rightarrow> other))"

function sampleLoop ::
  "OptimizationSettings \<Rightarrow> string option \<Rightarrow> 'img env \<Rightarrow> int \<Rightarrow> nat \<Rightarrow> 'img run
     \<Rightarrow> 'img run outcome" where
  "sampleLoop settings baseName e totalFramesToProcess i st =
     (if int i < totalFramesToProcess then
        (case processSample settings baseName e totalFramesToProcess i st of
           Normal st1 \<Rightarrow> sampleLoop settings baseName e totalFramesToProcess (i + 1) st1
         | other \<Rightarrow> other)
      else Normal st)"
  by pat_completeness auto
termination
  by (relation "measure (\<lambda>(settings, baseName, e, total, i, st). nat (total - int i))") auto

declare sampleLoop.simps [simp del]

definition initialRun :: "'img run" where
  "initialRun =
     \<lparr>processedScenes = [], isProcessing = True, progress = 0, error = None,
      lastFrameData = None, currentSceneFrames = [], scenes = [], sceneCount = 0\<rparr>"

definition segment ::
  "OptimizationSettings \<Rightarrow> string option \<Rightarrow> video \<Rightarrow> 'img env \<Rightarrow> 'img run outcome" where
  \<comment> \<open>the \<open>try\<close> block of the handler\<close>
  "segment settings baseName v e =
     (if abortedAtStart e \<or> \<not> contexts e then Return initialRun
      else
        let (w, h) = scaledDimensions (resolution settings) (videoWidth v) (videoHeight v)
        in if w = 0 \<or> h = 0 then
             Return (initialRun\<lparr>error := Some DimensionsUnknown, isProcessing := False\<rparr>)
           else
             let totalFramesToProcess = \<lfloor>duration v * frameRate settings\<rfloor>
             in case sampleLoop settings baseName e totalFramesToProcess 0 initialRun of
                  Normal st1 \<Rightarrow>
                    (case (if MIN_SCENE_FRAMES \<le> length (currentSceneFrames st1)
                           then emitScene e baseName st1 else Normal st1) of
                       Normal st2 \<Rightarrow>
                         Normal (if length (scenes st2) = 0 \<and> 0 < totalFramesToProcess
                                 then st2\<lparr>error := Some NoScenesDetected\<rparr> else st2)
                     | other \<Rightarrow> other)
                | other \<Rightarrow> other)"

definition processVideo ::
  "OptimizationSettings \<Rightarrow> string option \<Rightarrow> video \<Rightarrow> 'img env \<Rightarrow> 'img run" where
  \<comment> \<open>\<open>catch\<close> stores the error, \<open>finally\<close> clears \<open>isProcessing\<close>\<close>
  "processVideo settings baseName v e =
     (case segment settings baseName v e of
        Normal st \<Rightarrow> st\<lparr>isProcessing := False\<rparr>
      | Return st \<Rightarrow> st\<lparr>isProcessing := False\<rparr>
      | Throw err st \<Rightarrow> st\<lparr>error := Some err, isProcessing := False\<rparr>)"


section \<open>Assembly timeline (components/GifCombiner.tsx, components/CombineModal.tsx)\<close>

text \<open>
  The state of \<open>GifCombiner\<close> that the trim and reorder code reads and writes. Indices are
  JavaScript numbers holding integers. \<open>CombineModal\<close> has the same effect, handlers and
  duration memo, word for word, over \<open>orderedScenes\<close> and \<open>allFrames\<close>. Frame delays
  are summed over the reals, without rounding.
\<close>

record 'img ParsedGifWithMeta =
  width :: nat
  height :: nat
  gifFrames :: "'img frame list"
  gifId :: string
  gifName :: string
  url :: string

record 'img combiner =
  orderedGifs :: "'img ParsedGifWithMeta list"
  flatFrames :: "'img frame list"
  trimStart :: int
  trimEnd :: int
  workerUrl :: "string option"

definition slice_array :: "'a list \<Rightarrow> int \<Rightarrow> int \<Rightarrow> 'a list" where
  \<comment> \<open>\<open>Array.prototype.slice(start, end)\<close>: negative bounds count from the end, both are
      clamped to the array\<close>
  "slice_array xs start end' =
     (let len = int (length xs);
          k = (if start < 0 then max (len + start) 0 else min start len);
          final = (if end' < 0 then max (len + end') 0 else min end' len)
      in take (nat (final - k)) (drop (nat k) xs))"

definition initialCombiner :: "'img ParsedGifWithMeta list \<Rightarrow> 'img combiner" where
  \<comment> \<open>the \<open>useState\<close> initial values, before the first effect runs\<close>
  "initialCombiner gifs =
     \<lparr>orderedGifs = gifs, flatFrames = [], trimStart = 0, trimEnd = 0, workerUrl = None\<rparr>"

definition flattenEffect :: "'img combiner \<Rightarrow> 'img combiner" where
  \<comment> \<open>the effect on \<open>[orderedGifs]\<close>\<close>
  "flattenEffect c =
     (let all = concat (map gifFrames (orderedGifs c))
      in c\<lparr>flatFrames := all,
            trimStart := 0,
            trimEnd := (if 0 < length all then int (length all) - 1 else 0)\<rparr>)"

definition handleDragSort ::
  "nat option \<Rightarrow> nat option \<Rightarrow> 'img combiner \<Rightarrow> error + 'img combiner" where
  \<comment> \<open>\<open>dragItem\<close> and \<open>dragOverItem\<close> are indices of the rendered list. The two
      \<open>splice\<close> calls remove the dragged element and insert it again (past the end: at the
      end). A \<open>dragItem\<close> past the end would make \<open>splice(...)[0]\<close> \<open>undefined\<close> and
      the next read of its \<open>frames\<close> a TypeError. With a null ref the handler returns and
      no state is set.\<close>
  "handleDragSort dragItem dragOverItem c =
     (case (dragItem, dragOverItem) of
        (Some from, Some to) \<Rightarrow>
          if from < length (orderedGifs c) then
            let draggedItemContent = orderedGifs c ! from;
                removed = take from (orderedGifs c) @ drop (from + 1) (orderedGifs c);
                newOrderedGifs = take to removed @ [draggedItemContent] @ drop to removed
            in Inr (c\<lparr>orderedGifs := newOrderedGifs\<rparr>)
          else Inl TypeError
      | _ \<Rightarrow> Inr c)"

definition reorder ::
  "nat \<Rightarrow> nat \<Rightarrow> 'img combiner \<Rightarrow> error + 'img combiner" where
  \<comment> \<open>a completed drag: \<open>setOrderedGifs\<close> with a fresh array, then the effect it triggers\<close>
  "reorder from to c =
     (case handleDragSort (Some from) (Some to) c of
        Inl err \<Rightarrow> Inl err
      | Inr c1 \<Rightarrow> Inr (flattenEffect c1))"

definition handleStartTrimChange :: "int \<Rightarrow> 'img combiner \<Rightarrow> 'img combiner" where
  "handleStartTrimChange newStart c = c\<lparr>trimStart := min newStart (trimEnd c)\<rparr>"

definition handleEndTrimChange :: "int \<Rightarrow> 'img combiner \<Rightarrow> 'img combiner" where
  "handleEndTrimChange newEnd c = c\<lparr>trimEnd := max newEnd (trimStart c)\<rparr>"

definition sliderMax :: "'img combiner \<Rightarrow> int" where
  \<comment> \<open>the \<open>max\<close> attribute of the two range inputs whose change events the trim
      handlers receive; their \<open>min\<close> is 0, so a handler's argument lies between 0 and
      this value\<close>
  "sliderMax c = (if 0 < length (flatFrames c) then int (length (flatFrames c)) - 1 else 0)"

record 'img encodeRequest =
  gifWidth :: nat
  gifHeight :: nat
  addedFrames :: "'img frame list"

definition generateCombinedGif :: "'img combiner \<Rightarrow> 'img encodeRequest option" where
  \<comment> \<open>the GIF handed to gif.js: the constructor's size and the frames added, or \<open>None\<close>
      when the function returns before it builds one. The preview state it sets
      (\<open>combinedGif\<close>, \<open>isGenerating\<close>) is not part of the model.\<close>
  "generateCombinedGif c =
     (if workerUrl c = None \<or> length (flatFrames c) = 0 \<or> length (orderedGifs c) = 0 then None
      else if trimEnd c < trimStart c then None
      else
        let framesToCombine = slice_array (flatFrames c) (trimStart c) (trimEnd c + 1)
        in if length framesToCombine = 0 then None
           else
             let firstGif = hd (orderedGifs c)
             in Some \<lparr>gifWidth = width firstGif, gifHeight = height firstGif,
                       addedFrames = framesToCombine\<rparr>)"

record durations =
  totalDuration :: real
  startTime :: real
  endTime :: real
  selectedDuration :: real

definition sumDelays :: "'img frame list \<Rightarrow> real" where
  \<comment> \<open>\<open>.reduce((acc, f) => acc + f.delay, 0)\<close>\<close>
  "sumDelays fs = foldl (\<lambda>acc f. acc + delay f) 0 fs"

definition durationsMemo :: "'img combiner \<Rightarrow> durations" where
  "durationsMemo c =
     (if length (flatFrames c) = 0 then
        \<lparr>totalDuration = 0, startTime = 0, endTime = 0, selectedDuration = 0\<rparr>
      else
        let totalDurationMs = sumDelays (flatFrames c);
            startTimeMs = sumDelays (slice_array (flatFrames c) 0 (trimStart c));
            selectedDurationMs = sumDelays (slice_array (flatFrames c) (trimStart c) (trimEnd c + 1));
            endTimeMs = startTimeMs + selectedDurationMs
        in \<lparr>totalDuration = totalDurationMs / 1000,
            startTime = startTimeMs / 1000,
            endTime = endTimeMs / 1000,
            selectedDuration = selectedDurationMs / 1000\<rparr>)"

definition trimInvariant :: "'img combiner \<Rightarrow> bool" where
  "trimInvariant c =
     (if flatFrames c = [] then trimStart c = 0 \<and> trimEnd c = 0
      else 0 \<le> trimStart c \<and> trimStart c \<le> trimEnd c
           \<and> trimEnd c < int (length (flatFrames c)))"


section \<open>The differencer as the specification words it\<close>

text \<open>
  The specification's formula, to be compared with \<open>calculateFrameDifference\<close>: the
  luminance of pixel \<open>p\<close> is \<open>0.299 R + 0.587 G + 0.114 B\<close> (alpha ignored), and the
  score is the sum of the absolute luminance deltas over \<open>255 \<times> pixelCount\<close>, as a
  percentage.
\<close>

definition luminance :: "pixels \<Rightarrow> nat \<Rightarrow> real" where
  "luminance d p =
     0.299 * real (unat (d ! (4 * p))) + 0.587 * real (unat (d ! (4 * p + 1)))
       + 0.114 * real (unat (d ! (4 * p + 2)))"

definition specDifference :: "pixels \<Rightarrow> pixels \<Rightarrow> real" where
  "specDifference a b =
     (let pixelCount = length a div 4
      in (\<Sum>p<pixelCount. \<bar>luminance a p - luminance b p\<bar>) / (255 * real pixelCount) * 100)"

text \<open>
  The same formula with every product, sum, difference and quotient rounded to a double,
  the pixels summed in order from the first.
\<close>

definition luminance64 :: "pixels \<Rightarrow> nat \<Rightarrow> real" where
  "luminance64 d p =
     roundFinite
       (roundFinite (roundFinite (roundFinite 0.299 * real (unat (d ! (4 * p))))
                     + roundFinite (roundFinite 0.587 * real (unat (d ! (4 * p + 1)))))
        + roundFinite (roundFinite 0.114 * real (unat (d ! (4 * p + 2)))))"

fun deltaSum64 :: "pixels \<Rightarrow> pixels \<Rightarrow> nat \<Rightarrow> real" where
  "deltaSum64 a b 0 = 0"
| "deltaSum64 a b (Suc k) =
     roundFinite (deltaSum64 a b k + \<bar>roundFinite (luminance64 a k - luminance64 b k)\<bar>)"

definition difference64 :: "pixels \<Rightarrow> pixels \<Rightarrow> real" where
  "difference64 a b =
     (let pixelCount = length a div 4
      in roundFinite
           (roundFinite (deltaSum64 a b pixelCount
                         / roundFinite (255 * roundFinite (real (length a) / 4)))
            * 100))"

section \<open>Proof helpers\<close>



text \<open>
  The state an outcome carries; the first \<open>n\<close> iterations of the sampling loop from
  sample \<open>i\<close>; and the place of a list of frames in a later state: at the head of scene
  number \<open>n\<close> once that scene exists, and until then at the head of the open accumulation.
\<close>

fun stateOf :: "'s outcome \<Rightarrow> 's" where
  "stateOf (Normal s) = s"
| "stateOf (Return s) = s"
| "stateOf (Throw err s) = s"

fun runSamples ::
  "OptimizationSettings \<Rightarrow> string option \<Rightarrow> 'img env \<Rightarrow> int \<Rightarrow> nat \<Rightarrow> nat \<Rightarrow> 'img run
     \<Rightarrow> 'img run outcome" where
  "runSamples settings baseName e tot i n st =
     (if n = 0 \<or> \<not> int i < tot then Normal st
      else case processSample settings baseName e tot i st of
             Normal st1 \<Rightarrow> runSamples settings baseName e tot (i + 1) (n - 1) st1
           | other \<Rightarrow> other)"

declare runSamples.simps [simp del]

definition carried :: "'img frame list \<Rightarrow> nat \<Rightarrow> 'img run \<Rightarrow> bool" where
  "carried fs n s =
     (if n < length (scenes s) then take (length fs) (frames (scenes s ! n)) = fs
      else n = length (scenes s) \<and> take (length fs) (currentSceneFrames s) = fs)"

section \<open>Sample inputs\<close>

text \<open>One-pixel comparison frames, a ten-frames-per-second setting and three runs.\<close>

definition white :: pixels where
  "white = [255, 255, 255, 255]"

definition black :: pixels where
  "black = [0, 0, 0, 255]"

definition settings10 :: OptimizationSettings where
  "settings10 = \<lparr>resolution = MaxDimension 640, frameRate = 10, quality = 10, dither = False\<rparr>"

definition clip :: "real \<Rightarrow> video" where
  "clip seconds = \<lparr>duration = seconds, videoWidth = 640, videoHeight = 360\<rparr>"

text \<open>
  Ten white samples, a blip of six black ones, then white again; sample \<open>i\<close> carries the
  image \<open>i\<close>, and every render finishes.
\<close>

definition blipEnv :: "nat env" where
  "blipEnv =
     \<lparr>contexts = True, abortedAtStart = False, abortedAt = (\<lambda>i. False),
      seek = (\<lambda>i. Some (i, if i < 10 \<or> 16 \<le> i then white else black)),
      render = (\<lambda>fs n. Some (''blob:'' @ showNat n))\<rparr>"

text \<open>
  The blip run of twenty-six samples: its first scene, its state on entry to sample 16 (the
  first white sample after the blip), the frames that sample leaves accumulated, the state
  after it, the state when the loop ends, and the state after the closing emission.
\<close>

definition blipSceneOne :: "nat GifScene" where
  "blipSceneOne =
     \<lparr>id' = ''1'', dataUrl = ''blob:1'',
      frames =
        [\<lparr>data = 0, delay = 100\<rparr>, \<lparr>data = 1, delay = 100\<rparr>, \<lparr>data = 2, delay = 100\<rparr>,
         \<lparr>data = 3, delay = 100\<rparr>, \<lparr>data = 4, delay = 100\<rparr>, \<lparr>data = 5, delay = 100\<rparr>,
         \<lparr>data = 6, delay = 100\<rparr>, \<lparr>data = 7, delay = 100\<rparr>, \<lparr>data = 8, delay = 100\<rparr>,
         \<lparr>data = 9, delay = 100\<rparr>],
      isSelected = False, name = ''Scene 1''\<rparr>"

definition blipAtSixteen :: "nat run" where
  "blipAtSixteen =
     \<lparr>processedScenes = [blipSceneOne], isProcessing = True, progress = 16 / 26 * 100,
      error = None, lastFrameData = Some black,
      currentSceneFrames =
        [\<lparr>data = 10, delay = 100\<rparr>, \<lparr>data = 11, delay = 100\<rparr>, \<lparr>data = 12, delay = 100\<rparr>,
         \<lparr>data = 13, delay = 100\<rparr>, \<lparr>data = 14, delay = 100\<rparr>, \<lparr>data = 15, delay = 100\<rparr>],
      scenes = [blipSceneOne], sceneCount = 1\<rparr>"

definition blipKept :: "nat frame list" where
  "blipKept =
     [\<lparr>data = 10, delay = 100\<rparr>, \<lparr>data = 11, delay = 100\<rparr>, \<lparr>data = 12, delay = 100\<rparr>,
      \<lparr>data = 13, delay = 100\<rparr>, \<lparr>data = 14, delay = 100\<rparr>, \<lparr>data = 15, delay = 100\<rparr>,
      \<lparr>data = 16, delay = 100\<rparr>]"

definition blipAtSeventeen :: "nat run" where
  "blipAtSeventeen =
     blipAtSixteen\<lparr>currentSceneFrames := blipKept, lastFrameData := Some white,
                   progress := 17 / 26 * 100\<rparr>"

definition blipAfterLoop :: "nat run" where
  "blipAfterLoop = stateOf (sampleLoop settings10 None blipEnv 26 17 blipAtSeventeen)"

definition blipFinal :: "nat run" where
  "blipFinal = stateOf (emitScene blipEnv None blipAfterLoop)"

text \<open>Ten white samples, then black ones; the render of scene 1 times out.\<close>

definition stalledRenderEnv :: "nat env" where
  "stalledRenderEnv =
     \<lparr>contexts = True, abortedAtStart = False, abortedAt = (\<lambda>i. False),
      seek = (\<lambda>i. Some (i, if i < 10 then white else black)),
      render = (\<lambda>fs n. if n = 1 then None else Some (''blob:'' @ showNat n))\<rparr>"

text \<open>
  The state of that run on entry to sample 10: ten frames accumulated, nothing emitted.
\<close>

definition afterTenSamples :: "nat run" where
  "afterTenSamples =
     initialRun
       \<lparr>lastFrameData := Some white,
        currentSceneFrames :=
          [\<lparr>data = 0, delay = 100\<rparr>, \<lparr>data = 1, delay = 100\<rparr>, \<lparr>data = 2, delay = 100\<rparr>,
           \<lparr>data = 3, delay = 100\<rparr>, \<lparr>data = 4, delay = 100\<rparr>, \<lparr>data = 5, delay = 100\<rparr>,
           \<lparr>data = 6, delay = 100\<rparr>, \<lparr>data = 7, delay = 100\<rparr>, \<lparr>data = 8, delay = 100\<rparr>,
           \<lparr>data = 9, delay = 100\<rparr>],
        progress := 10 / 21 * 100\<rparr>"

text \<open>Two decoded clips with unequal frame delays, and a timeline over them.\<close>

definition clipA :: "nat ParsedGifWithMeta" where
  "clipA =
     \<lparr>width = 320, height = 240,
      gifFrames = [\<lparr>data = 0, delay = 100\<rparr>, \<lparr>data = 1, delay = 20\<rparr>],
      gifId = ''a'', gifName = ''A'', url = ''blob:a''\<rparr>"

definition clipB :: "nat ParsedGifWithMeta" where
  "clipB =
     \<lparr>width = 320, height = 240,
      gifFrames = [\<lparr>data = 2, delay = 30\<rparr>, \<lparr>data = 3, delay = 40\<rparr>, \<lparr>data = 4, delay = 50\<rparr>],
      gifId = ''b'', gifName = ''B'', url = ''blob:b''\<rparr>"

definition timeline :: "int \<Rightarrow> int \<Rightarrow> nat combiner" where
  "timeline s e =
     \<lparr>orderedGifs = [clipA, clipB],
      flatFrames = gifFrames clipA @ gifFrames clipB,
      trimStart = s, trimEnd = e, workerUrl = Some ''blob:worker''\<rparr>"


section \<open>Lemmas about rounding\<close>

lemma roundHalfEven_of_int [simp]: "roundHalfEven (of_int k) = k"
  by (simp add: roundHalfEven_def)

lemma roundHalfEven_bounds: "y - 1 / 2 \<le> of_int (roundHalfEven y) \<and> of_int (roundHalfEven y) \<le> y + 1 / 2"
  unfolding roundHalfEven_def Let_def by (auto; linarith)

lemma roundHalfEven_mono:
  assumes "x \<le> y"
  shows "roundHalfEven x \<le> roundHalfEven y"
proof (cases "\<lfloor>x\<rfloor> = \<lfloor>y\<rfloor>")
  case True
  then show ?thesis
    using assms unfolding roundHalfEven_def Let_def by (auto; linarith)
next
  case False
  then have lt: "\<lfloor>x\<rfloor> + 1 \<le> \<lfloor>y\<rfloor>" using assms floor_mono [OF assms] by linarith
  have "roundHalfEven x \<le> \<lfloor>x\<rfloor> + 1" unfolding roundHalfEven_def Let_def by auto
  moreover have "\<lfloor>y\<rfloor> \<le> roundHalfEven y" unfolding roundHalfEven_def Let_def by auto
  ultimately show ?thesis using lt by linarith
qed

lemma roundHalfEven_minus: "roundHalfEven (- y) = - roundHalfEven y"
proof (cases "y = of_int \<lfloor>y\<rfloor>")
  case True
  then obtain k where "y = of_int k" by metis
  then show ?thesis by (simp flip: of_int_minus)
next
  case False
  then have fl: "\<lfloor>- y\<rfloor> = - \<lfloor>y\<rfloor> - 1"
    by (metis ceiling_def ceiling_altdef floor_minus add_diff_cancel_right' diff_minus_eq_add minus_diff_eq minus_add_distrib uminus_add_conv_diff)
  show ?thesis
    unfolding roundHalfEven_def Let_def fl
    by (auto simp: ; linarith?)
qed


lemma two_powi_pos [simp]: "0 < (2::real) powi n"
  by (simp add: power_int_def)

lemma two_powi_Suc: "(2::real) powi (n + 1) = 2 powi n * 2"
  by (rule power_int_add_1) simp

lemma two_powi_le_iff: "(2::real) powi m \<le> 2 powi n \<longleftrightarrow> m \<le> n"
proof
  assume a: "(2::real) powi m \<le> 2 powi n"
  show "m \<le> n"
  proof (rule ccontr)
    assume "\<not> m \<le> n"
    then have "n < m" by simp
    then have "(2::real) powi n < 2 powi m" by (rule power_int_strict_increasing) simp
    then show False using a by simp
  qed
next
  assume "m \<le> n"
  then show "(2::real) powi m \<le> 2 powi n" by (rule power_int_increasing) simp
qed

lemma two_powi_less_iff: "(2::real) powi m < 2 powi n \<longleftrightarrow> m < n"
  using two_powi_le_iff [of n m] by (simp add: not_le [symmetric])

lemma two_powi_split: "(2::real) powi (a - b) * 2 powi b = 2 powi a"
  using power_int_add [of "2::real" "a - b" b] by simp

lemma binadeUp_bounds:
  "1 \<le> x \<Longrightarrow> 0 \<le> binadeUp x \<and> 2 powi (binadeUp x) \<le> x \<and> x < 2 powi (binadeUp x + 1)"
proof (induction x rule: binadeUp.induct)
  case (1 x)
  show ?case
  proof (cases "2 \<le> x")
    case True
    then have ih: "0 \<le> binadeUp (x / 2) \<and> 2 powi (binadeUp (x / 2)) \<le> x / 2
                   \<and> x / 2 < 2 powi (binadeUp (x / 2) + 1)"
      using 1(1) by simp
    have b: "binadeUp x = binadeUp (x / 2) + 1"
      using True by (subst binadeUp.simps) simp
    have p1: "(2::real) powi (binadeUp (x / 2) + 1) = 2 powi (binadeUp (x / 2)) * 2"
      by (rule two_powi_Suc)
    have p2: "(2::real) powi (binadeUp (x / 2) + 1 + 1) = 2 powi (binadeUp (x / 2) + 1) * 2"
      by (rule two_powi_Suc)
    show ?thesis
      unfolding b using ih p1 p2 by (intro conjI; linarith)
  next
    case False
    then have "binadeUp x = 0" by (subst binadeUp.simps) simp
    then show ?thesis using False 1(2) by simp
  qed
qed

lemma binadeDown_bounds:
  "0 < x \<Longrightarrow> x < 1 \<Longrightarrow>
     binadeDown x < 0 \<and> 2 powi (binadeDown x) \<le> x \<and> x < 2 powi (binadeDown x + 1)"
proof (induction x rule: binadeDown.induct)
  case (1 x)
  have b: "binadeDown x = binadeDown (2 * x) - 1"
    using 1(2,3) by (subst binadeDown.simps) simp
  show ?case
  proof (cases "2 * x < 1")
    case True
    then have ih: "binadeDown (2 * x) < 0 \<and> 2 powi (binadeDown (2 * x)) \<le> 2 * x
                   \<and> 2 * x < 2 powi (binadeDown (2 * x) + 1)"
      using 1 by simp
    have "(2::real) powi (binadeDown (2 * x) - 1 + 1) = 2 powi (binadeDown (2 * x) - 1) * 2"
      by (rule two_powi_Suc)
    then have h: "(2::real) powi (binadeDown (2 * x)) = 2 powi (binadeDown (2 * x) - 1) * 2"
      by simp
    show ?thesis
      unfolding b using ih h by (simp add: two_powi_Suc)
  next
    case False
    then have "binadeDown (2 * x) = 0" by (subst binadeDown.simps) simp
    then have "binadeDown x = - 1" using b by simp
    then show ?thesis using False 1(3) by (simp add: power_int_minus)
  qed
qed

lemma binade_bounds:
  assumes "0 < x"
  shows "2 powi (binade x) \<le> x \<and> x < 2 powi (binade x + 1)"
  using assms binadeUp_bounds [of x] binadeDown_bounds [of x]
  by (cases "1 \<le> x") (simp_all add: binade_def)

lemma binade_unique:
  assumes "0 < x" "2 powi e \<le> x" "x < 2 powi (e + 1)"
  shows "binade x = e"
proof -
  have b: "2 powi (binade x) \<le> x" "x < 2 powi (binade x + 1)"
    using binade_bounds [OF assms(1)] by simp_all
  have "(2::real) powi e < 2 powi (binade x + 1)" using assms(2) b(2) by linarith
  then have "e < binade x + 1" by (simp add: two_powi_less_iff)
  moreover have "(2::real) powi (binade x) < 2 powi (e + 1)" using assms(3) b(1) by linarith
  then have "binade x < e + 1" by (simp add: two_powi_less_iff)
  ultimately show ?thesis by simp
qed

lemma binade_mono:
  assumes "0 < x" "x \<le> y"
  shows "binade x \<le> binade y"
proof -
  have "2 powi (binade x) \<le> x" using binade_bounds [OF assms(1)] by simp
  moreover have "y < 2 powi (binade y + 1)" using binade_bounds [of y] assms by simp
  ultimately have "(2::real) powi (binade x) < 2 powi (binade y + 1)" using assms(2) by linarith
  then show ?thesis by (simp add: two_powi_less_iff)
qed

lemma roundFinite_zero [simp]: "roundFinite 0 = 0"
  by (simp add: roundFinite_def roundHalfEven_def)

lemma roundFinite_minus: "roundFinite (- x) = - roundFinite x"
  by (simp add: roundFinite_def Let_def roundHalfEven_minus)

text \<open>A positive number and its rounding lie in the same closed binade.\<close>

lemma roundFinite_binade:
  assumes "0 < x"
  shows "(- 1022 \<le> binade x \<longrightarrow>
            2 powi (binade x) \<le> roundFinite x \<and> roundFinite x \<le> 2 powi (binade x + 1))
         \<and> (binade x < - 1022 \<longrightarrow> 0 \<le> roundFinite x \<and> roundFinite x \<le> 2 powi (- 1022))"
proof (intro conjI impI)
  have bb: "2 powi (binade x) \<le> x" "x < 2 powi (binade x + 1)"
    using binade_bounds [OF assms] by simp_all
  {
    assume n: "- 1022 \<le> binade x"
    define u :: real where "u = 2 powi (binade x - 52)"
    have up: "0 < u" by (simp add: u_def)
    have rf: "roundFinite x = u * of_int (roundHalfEven (x / u))"
      using n assms by (simp add: roundFinite_def Let_def u_def max_def)
    have lo: "u * 2 ^ 52 = 2 powi (binade x)"
      unfolding u_def using two_powi_split [of "binade x" 52] by simp
    have hi: "u * 2 ^ 53 = 2 powi (binade x + 1)"
      unfolding u_def using two_powi_split [of "binade x + 1" 53] by simp
    have "2 ^ 52 \<le> x / u" using bb(1) up lo by (simp add: pos_le_divide_eq mult.commute)
    then have "roundHalfEven (2 ^ 52) \<le> roundHalfEven (x / u)" by (rule roundHalfEven_mono)
    moreover have "roundHalfEven (2 ^ 52) = 2 ^ 52"
      using roundHalfEven_of_int [of "2 ^ 52"] by simp
    ultimately have a: "(2::real) ^ 52 \<le> of_int (roundHalfEven (x / u))"
      by (metis of_int_le_iff of_int_numeral of_int_power)
    have "x / u \<le> 2 ^ 53" using bb(2) up hi by (simp add: pos_divide_le_eq mult.commute)
    then have "roundHalfEven (x / u) \<le> roundHalfEven (2 ^ 53)" by (rule roundHalfEven_mono)
    moreover have "roundHalfEven (2 ^ 53) = 2 ^ 53"
      using roundHalfEven_of_int [of "2 ^ 53"] by simp
    ultimately have b: "of_int (roundHalfEven (x / u)) \<le> (2::real) ^ 53"
      by (metis of_int_le_iff of_int_numeral of_int_power)
    show "2 powi (binade x) \<le> roundFinite x"
      unfolding rf lo [symmetric] using a up by simp
    show "roundFinite x \<le> 2 powi (binade x + 1)"
      unfolding rf hi [symmetric] using b up by simp
  }
  {
    assume s: "binade x < - 1022"
    define u :: real where "u = 2 powi (- 1074)"
    have up: "0 < u" by (simp add: u_def)
    have rf: "roundFinite x = u * of_int (roundHalfEven (x / u))"
      using s assms by (simp add: roundFinite_def Let_def u_def max_def)
    have hi: "u * 2 ^ 52 = 2 powi (- 1022)"
      unfolding u_def using two_powi_split [of "- 1022" 52] by simp
    have "x < 2 powi (- 1022)"
    proof -
      have "binade x + 1 \<le> - 1022" using s by simp
      then have "(2::real) powi (binade x + 1) \<le> 2 powi (- 1022)"
        by (simp only: two_powi_le_iff)
      then show ?thesis using bb(2) by linarith
    qed
    then have "x / u \<le> 2 ^ 52" using up hi by (simp add: pos_divide_le_eq mult.commute)
    then have "roundHalfEven (x / u) \<le> roundHalfEven (2 ^ 52)" by (rule roundHalfEven_mono)
    moreover have "roundHalfEven (2 ^ 52) = 2 ^ 52"
      using roundHalfEven_of_int [of "2 ^ 52"] by simp
    ultimately have b: "of_int (roundHalfEven (x / u)) \<le> (2::real) ^ 52"
      by (metis of_int_le_iff of_int_numeral of_int_power)
    have "0 \<le> x / u" using assms up by simp
    then have "roundHalfEven 0 \<le> roundHalfEven (x / u)" by (rule roundHalfEven_mono)
    then have a: "(0::real) \<le> of_int (roundHalfEven (x / u))"
      using roundHalfEven_of_int [of 0] by simp
    show "0 \<le> roundFinite x" unfolding rf using a up by simp
    show "roundFinite x \<le> 2 powi (- 1022)"
      unfolding rf hi [symmetric] using b up by simp
  }
qed


lemma roundFinite_nonneg:
  assumes "0 \<le> x"
  shows "0 \<le> roundFinite x"
proof (cases "x = 0")
  case True
  then show ?thesis by simp
next
  case False
  then have p: "0 < x" using assms by simp
  show ?thesis
  proof (cases "- 1022 \<le> binade x")
    case True
    then have "2 powi (binade x) \<le> roundFinite x" using roundFinite_binade [OF p] by simp
    moreover have "0 < (2::real) powi (binade x)" by simp
    ultimately show ?thesis by linarith
  next
    case False
    then show ?thesis using roundFinite_binade [OF p] by simp
  qed
qed

lemma roundFinite_mono_pos:
  assumes "0 < x" "x \<le> y"
  shows "roundFinite x \<le> roundFinite y"
proof -
  have py: "0 < y" using assms by linarith
  define ex where "ex = max (binade x) (- 1022)"
  define ey where "ey = max (binade y) (- 1022)"
  have le: "ex \<le> ey" using binade_mono [OF assms] by (simp add: ex_def ey_def)
  show ?thesis
  proof (cases "ex = ey")
    case True
    have u: "0 < (2::real) powi (ey - 52)" by simp
    have "x / 2 powi (ey - 52) \<le> y / 2 powi (ey - 52)"
      using assms(2) u by (simp add: divide_right_mono)
    then have "roundHalfEven (x / 2 powi (ey - 52)) \<le> roundHalfEven (y / 2 powi (ey - 52))"
      by (rule roundHalfEven_mono)
    then have "2 powi (ey - 52) * real_of_int (roundHalfEven (x / 2 powi (ey - 52)))
               \<le> 2 powi (ey - 52) * real_of_int (roundHalfEven (y / 2 powi (ey - 52)))"
      using u by simp
    then show ?thesis
      using True assms(1) py unfolding roundFinite_def Let_def ex_def ey_def by simp
  next
    case False
    then have lt: "ex < ey" using le by simp
    then have ny: "- 1022 < binade y" "ey = binade y" by (auto simp: ex_def ey_def)
    have low: "2 powi ey \<le> roundFinite y"
      using roundFinite_binade [OF py] ny by simp
    have up: "roundFinite x \<le> 2 powi ey"
    proof (cases "- 1022 \<le> binade x")
      case True
      then have "ex = binade x" by (simp add: ex_def)
      then have "roundFinite x \<le> 2 powi (ex + 1)"
        using roundFinite_binade [OF assms(1)] True by simp
      moreover have "(2::real) powi (ex + 1) \<le> 2 powi ey"
        using lt by (simp only: two_powi_le_iff; (simp)?)
      ultimately show ?thesis by linarith
    next
      case False
      then have "roundFinite x \<le> 2 powi (- 1022)"
        using roundFinite_binade [OF assms(1)] by simp
      moreover have "(2::real) powi (- 1022) \<le> 2 powi ey"
        using ny by (simp only: two_powi_le_iff; (simp)?)
      ultimately show ?thesis by linarith
    qed
    show ?thesis using low up by linarith
  qed
qed

lemma roundFinite_mono:
  assumes "x \<le> y"
  shows "roundFinite x \<le> roundFinite y"
proof -
  consider "0 < x" | "x \<le> 0" "0 \<le> y" | "y < 0" by linarith
  then show ?thesis
  proof cases
    case 1
    then show ?thesis using assms by (rule roundFinite_mono_pos)
  next
    case 2
    have "0 \<le> roundFinite (- x)" using 2(1) by (intro roundFinite_nonneg) simp
    then have "roundFinite x \<le> 0" by (simp add: roundFinite_minus)
    moreover have "0 \<le> roundFinite y" using 2(2) by (rule roundFinite_nonneg)
    ultimately show ?thesis by linarith
  next
    case 3
    then have "0 < - y" "- y \<le> - x" using assms by simp_all
    then have "roundFinite (- y) \<le> roundFinite (- x)" by (rule roundFinite_mono_pos)
    then show ?thesis by (simp add: roundFinite_minus)
  qed
qed

text \<open>
  Numbers with a significand of at most 53 bits, at or above the subnormal exponent, are
  their own rounding.
\<close>

lemma roundFinite_exact_pos:
  assumes "0 < k" "k < 2 ^ 53" "- 1074 \<le> j"
  shows "roundFinite (of_int k * 2 powi j) = of_int k * 2 powi j"
proof -
  define x :: real where "x = of_int k * 2 powi j"
  have px: "0 < x" using assms(1) by (simp add: x_def)
  define e where "e = max (binade x) (- 1022)"
  have "2 powi (binade x) \<le> x" using binade_bounds [OF px] by simp
  moreover have "x < 2 ^ 53 * 2 powi j"
  proof -
    have "real_of_int k < 2 ^ 53" using assms(2) by (metis of_int_less_iff of_int_numeral of_int_power)
    then show ?thesis by (simp add: x_def)
  qed
  moreover have "(2::real) ^ 53 * 2 powi j = 2 powi (j + 53)"
    using two_powi_split [of "j + 53" 53] by (simp add: mult.commute)
  ultimately have "(2::real) powi (binade x) < 2 powi (j + 53)" by linarith
  then have "binade x < j + 53" by (simp only: two_powi_less_iff)
  then have ej: "e - 52 \<le> j" using assms(3) by (simp add: e_def)
  define d where "d = nat (j - (e - 52))"
  have dj: "(2::real) powi j = 2 powi (e - 52) * 2 ^ d"
  proof -
    have "(2::real) powi (j - (e - 52)) = 2 ^ d"
      using ej by (simp add: d_def power_int_def)
    then show ?thesis using two_powi_split [of j "e - 52"] by (simp add: mult.commute)
  qed
  have "x / 2 powi (e - 52) = of_int (k * 2 ^ d)"
    unfolding x_def dj by simp
  then have "roundHalfEven (x / 2 powi (e - 52)) = k * 2 ^ d"
    using roundHalfEven_of_int [of "k * 2 ^ d"] by simp
  then have "roundFinite x = 2 powi (e - 52) * of_int (k * 2 ^ d)"
    by (simp add: roundFinite_def Let_def e_def abs_of_pos [OF px])
  also have "\<dots> = x" unfolding x_def dj by simp
  finally show ?thesis by (simp add: x_def)
qed

lemma roundFinite_of_int:
  assumes "\<bar>k\<bar> < 2 ^ 53"
  shows "roundFinite (of_int k) = of_int k"
proof -
  consider "0 < k" | "k = 0" | "k < 0" by linarith
  then show ?thesis
  proof cases
    case 1
    then show ?thesis using roundFinite_exact_pos [of k 0] assms by simp
  next
    case 2
    then show ?thesis by simp
  next
    case 3
    then have "roundFinite (of_int (- k)) = of_int (- k)"
      using roundFinite_exact_pos [of "- k" 0] assms by simp
    then show ?thesis by (simp add: roundFinite_minus)
  qed
qed

lemma roundFinite_two_power:
  assumes "- 1074 \<le> j"
  shows "roundFinite (2 powi j) = 2 powi j"
  using roundFinite_exact_pos [of 1 j] assms by simp

lemma roundFinite_le:
  assumes "x \<le> of_int k" "\<bar>k\<bar> < 2 ^ 53"
  shows "roundFinite x \<le> of_int k"
  using roundFinite_mono [OF assms(1)] roundFinite_of_int [OF assms(2)] by simp

lemma roundFinite_ge:
  assumes "of_int k \<le> x" "\<bar>k\<bar> < 2 ^ 53"
  shows "of_int k \<le> roundFinite x"
  using roundFinite_mono [OF assms(1)] roundFinite_of_int [OF assms(2)] by simp

text \<open>No overflow below \<open>2 ^ 1023\<close>.\<close>

lemma double_finite:
  assumes "\<bar>x\<bar> \<le> 2 powi 1023"
  shows "double x = Num (roundFinite x)"
proof -
  have r: "roundFinite (2 powi 1023) = 2 powi 1023" by (rule roundFinite_two_power) simp
  have "roundFinite x \<le> roundFinite (2 powi 1023)"
    using assms by (intro roundFinite_mono) linarith
  moreover have "roundFinite (- (2 powi 1023)) \<le> roundFinite x"
    using assms by (intro roundFinite_mono) linarith
  ultimately have "\<bar>roundFinite x\<bar> \<le> 2 powi 1023"
    unfolding roundFinite_minus r by linarith
  moreover have "(2::real) powi 1023 < 2 powi 1024" by (simp only: two_powi_less_iff; (simp)?)
  moreover have "(2::real) powi 1024 = 2 ^ 1024" by (simp only: power_int_numeral)
  ultimately have "\<not> 2 ^ 1024 \<le> \<bar>roundFinite x\<bar>" by linarith
  then show ?thesis by (simp only: double_def Let_def if_False)
qed

lemma double_zero [simp]: "double 0 = Num 0"
  by (simp add: double_def)

text \<open>The equations that evaluate a rounding, and the differencer, on concrete input.\<close>

lemmas evalRound = roundFinite_def binade_def binadeUp.simps binadeDown.simps roundHalfEven_def
  double_def Let_def

lemmas evalDifference = calculateFrameDifference_def diffLoop.simps gray_def rd_def jsub_def

section \<open>Lemmas about the differencer\<close>

lemma jadd_NaN_right [simp]: "jadd x NaN = NaN"
  by (cases x) simp_all

lemma jmul_NaN_right [simp]: "jmul x NaN = NaN"
  by (cases x) simp_all

lemma jdiv_NaN_right [simp]: "jdiv x NaN = NaN"
  by (cases x) simp_all

lemma byte_bounds: "0 \<le> real (unat (w :: 8 word)) \<and> real (unat w) \<le> 255"
proof
  show "0 \<le> real (unat w)" by (rule of_nat_0_le_iff)
  have "unat w < 2 ^ 8" using unsigned_less [of w, where ?'a = nat] by simp
  then have "unat w \<le> 255" by simp
  then have "real (unat w) \<le> real 255" by (simp only: of_nat_le_iff)
  then show "real (unat w) \<le> 255" by simp
qed

lemma double_small:
  assumes "\<bar>x\<bar> \<le> 2 ^ 70"
  shows "double x = Num (roundFinite x)"
proof -
  have "(2::real) ^ 70 = 2 powi 70" by (simp only: power_int_numeral)
  moreover have "(2::real) powi 70 \<le> 2 powi 1023" by (simp only: two_powi_le_iff; (simp)?)
  ultimately show ?thesis using assms by (intro double_finite) linarith
qed

text \<open>The three weights as doubles, and the luminance of a white pixel.\<close>

lemma weight_values:
  "roundFinite 0.299 = 5386305154335113 / 18014398509481984"
  "roundFinite 0.587 = 2643612981266481 / 4503599627370496"
  "roundFinite 0.114 = 8214565720323785 / 72057594037927936"
  by (simp_all add: evalRound)

lemma white_terms:
  "roundFinite (roundFinite 0.299 * 255) = 5365264899825991 / 70368744177664"
  "roundFinite (roundFinite 0.587 * 255) = 2633286368058409 / 17592186044416"
  "roundFinite (roundFinite 0.114 * 255) = 4091238786489385 / 140737488355328"
  "roundFinite (5365264899825991 / 70368744177664 + 2633286368058409 / 17592186044416)
     = 3974602593014907 / 17592186044416"
  "roundFinite (3974602593014907 / 17592186044416 + 4091238786489385 / 140737488355328) = 255"
  by (simp_all add: evalRound)

lemma weighted_term:
  assumes "0 \<le> c" "0 \<le> r \<and> r \<le> 255"
  shows "0 \<le> roundFinite (c * r) \<and> roundFinite (c * r) \<le> roundFinite (c * 255)"
proof
  show "0 \<le> roundFinite (c * r)" using assms by (intro roundFinite_nonneg) simp
  have "c * r \<le> c * 255" using assms by (simp add: mult_left_mono)
  then show "roundFinite (c * r) \<le> roundFinite (c * 255)" by (rule roundFinite_mono)
qed

lemma term_bounds:
  "0 \<le> roundFinite (roundFinite 0.299 * real (unat (w :: 8 word)))
   \<and> roundFinite (roundFinite 0.299 * real (unat w)) \<le> 5365264899825991 / 70368744177664"
  "0 \<le> roundFinite (roundFinite 0.587 * real (unat w))
   \<and> roundFinite (roundFinite 0.587 * real (unat w)) \<le> 2633286368058409 / 17592186044416"
  "0 \<le> roundFinite (roundFinite 0.114 * real (unat w))
   \<and> roundFinite (roundFinite 0.114 * real (unat w)) \<le> 4091238786489385 / 140737488355328"
proof -
  have c: "0 \<le> roundFinite 0.299" "0 \<le> roundFinite 0.587" "0 \<le> roundFinite 0.114"
    by (simp_all add: roundFinite_nonneg)
  show "0 \<le> roundFinite (roundFinite 0.299 * real (unat w))
   \<and> roundFinite (roundFinite 0.299 * real (unat w)) \<le> 5365264899825991 / 70368744177664"
    using weighted_term [OF c(1) byte_bounds [of w]] unfolding white_terms(1) .
  show "0 \<le> roundFinite (roundFinite 0.587 * real (unat w))
   \<and> roundFinite (roundFinite 0.587 * real (unat w)) \<le> 2633286368058409 / 17592186044416"
    using weighted_term [OF c(2) byte_bounds [of w]] unfolding white_terms(2) .
  show "0 \<le> roundFinite (roundFinite 0.114 * real (unat w))
   \<and> roundFinite (roundFinite 0.114 * real (unat w)) \<le> 4091238786489385 / 140737488355328"
    using weighted_term [OF c(3) byte_bounds [of w]] unfolding white_terms(3) .
qed

lemma luminance64_bounds: "0 \<le> luminance64 d p \<and> luminance64 d p \<le> 255"
proof -
  define t1 where "t1 = roundFinite (roundFinite 0.299 * real (unat (d ! (4 * p))))"
  define t2 where "t2 = roundFinite (roundFinite 0.587 * real (unat (d ! (4 * p + 1))))"
  define t3 where "t3 = roundFinite (roundFinite 0.114 * real (unat (d ! (4 * p + 2))))"
  have c: "0 \<le> roundFinite 0.299" "0 \<le> roundFinite 0.587" "0 \<le> roundFinite 0.114"
    by (simp_all add: roundFinite_nonneg)
  have b1: "0 \<le> t1 \<and> t1 \<le> 5365264899825991 / 70368744177664"
    unfolding t1_def by (rule term_bounds(1))
  have b2: "0 \<le> t2 \<and> t2 \<le> 2633286368058409 / 17592186044416"
    unfolding t2_def by (rule term_bounds(2))
  have b3: "0 \<le> t3 \<and> t3 \<le> 4091238786489385 / 140737488355328"
    unfolding t3_def by (rule term_bounds(3))
  have s: "0 \<le> roundFinite (t1 + t2) \<and> roundFinite (t1 + t2) \<le> 3974602593014907 / 17592186044416"
  proof
    show "0 \<le> roundFinite (t1 + t2)" using b1 b2 by (intro roundFinite_nonneg) simp
    have "t1 + t2 \<le> 5365264899825991 / 70368744177664 + 2633286368058409 / 17592186044416"
      using b1 b2 by linarith
    then have "roundFinite (t1 + t2)
                 \<le> roundFinite (5365264899825991 / 70368744177664 + 2633286368058409 / 17592186044416)"
      by (rule roundFinite_mono)
    then show "roundFinite (t1 + t2) \<le> 3974602593014907 / 17592186044416"
      unfolding white_terms(4) .
  qed
  have l: "luminance64 d p = roundFinite (roundFinite (t1 + t2) + t3)"
    by (simp add: luminance64_def t1_def t2_def t3_def)
  show ?thesis
  proof
    show "0 \<le> luminance64 d p" unfolding l using s b3 by (intro roundFinite_nonneg) simp
    have "roundFinite (t1 + t2) + t3
            \<le> 3974602593014907 / 17592186044416 + 4091238786489385 / 140737488355328"
      using s b3 by linarith
    then have "roundFinite (roundFinite (t1 + t2) + t3)
                 \<le> roundFinite (3974602593014907 / 17592186044416 + 4091238786489385 / 140737488355328)"
      by (rule roundFinite_mono)
    then show "luminance64 d p \<le> 255" unfolding l white_terms(5) .
  qed
qed

lemma gray_in_range:
  assumes "4 * p + 2 < length d"
  shows "gray d (4 * p) = Num (luminance64 d p)"
proof -
  define r where "r = real (unat (d ! (4 * p)))"
  define g where "g = real (unat (d ! (4 * p + 1)))"
  define b where "b = real (unat (d ! (4 * p + 2)))"
  have rb: "0 \<le> r \<and> r \<le> 255" and gb: "0 \<le> g \<and> g \<le> 255" and bb: "0 \<le> b \<and> b \<le> 255"
    unfolding r_def g_def b_def by (rule byte_bounds)+
  have c: "0 \<le> roundFinite 0.299" "0 \<le> roundFinite 0.587" "0 \<le> roundFinite 0.114"
    by (simp_all add: roundFinite_nonneg)
  have w: "double 0.299 = Num (roundFinite 0.299)" "double 0.587 = Num (roundFinite 0.587)"
    "double 0.114 = Num (roundFinite 0.114)"
    by (rule double_small, simp)+
  have c1: "roundFinite 0.299 \<le> 1" "roundFinite 0.587 \<le> 1" "roundFinite 0.114 \<le> 1"
    unfolding weight_values by simp_all
  have m1: "double (roundFinite 0.299 * r) = Num (roundFinite (roundFinite 0.299 * r))"
  proof (rule double_small)
    have "roundFinite 0.299 * r \<le> 1 * 255" using c(1) c1(1) rb by (intro mult_mono) simp_all
    moreover have "0 \<le> roundFinite 0.299 * r" using c(1) rb by simp
    ultimately show "\<bar>roundFinite 0.299 * r\<bar> \<le> 2 ^ 70" by simp
  qed
  have m2: "double (roundFinite 0.587 * g) = Num (roundFinite (roundFinite 0.587 * g))"
  proof (rule double_small)
    have "roundFinite 0.587 * g \<le> 1 * 255" using c(2) c1(2) gb by (intro mult_mono) simp_all
    moreover have "0 \<le> roundFinite 0.587 * g" using c(2) gb by simp
    ultimately show "\<bar>roundFinite 0.587 * g\<bar> \<le> 2 ^ 70" by simp
  qed
  have m3: "double (roundFinite 0.114 * b) = Num (roundFinite (roundFinite 0.114 * b))"
  proof (rule double_small)
    have "roundFinite 0.114 * b \<le> 1 * 255" using c(3) c1(3) bb by (intro mult_mono) simp_all
    moreover have "0 \<le> roundFinite 0.114 * b" using c(3) bb by simp
    ultimately show "\<bar>roundFinite 0.114 * b\<bar> \<le> 2 ^ 70" by simp
  qed
  define t1 where "t1 = roundFinite (roundFinite 0.299 * r)"
  define t2 where "t2 = roundFinite (roundFinite 0.587 * g)"
  define t3 where "t3 = roundFinite (roundFinite 0.114 * b)"
  have tb: "0 \<le> t1 \<and> t1 \<le> 256" "0 \<le> t2 \<and> t2 \<le> 256" "0 \<le> t3 \<and> t3 \<le> 256"
  proof -
    show "0 \<le> t1 \<and> t1 \<le> 256"
      using term_bounds(1) [of "d ! (4 * p)"] unfolding t1_def r_def by linarith
    show "0 \<le> t2 \<and> t2 \<le> 256"
      using term_bounds(2) [of "d ! (4 * p + 1)"] unfolding t2_def g_def by linarith
    show "0 \<le> t3 \<and> t3 \<le> 256"
      using term_bounds(3) [of "d ! (4 * p + 2)"] unfolding t3_def b_def by linarith
  qed
  have a1: "double (t1 + t2) = Num (roundFinite (t1 + t2))"
    using tb by (intro double_small) simp
  have sb: "0 \<le> roundFinite (t1 + t2) \<and> roundFinite (t1 + t2) \<le> 512"
  proof
    show "0 \<le> roundFinite (t1 + t2)" using tb by (intro roundFinite_nonneg) simp
    have "t1 + t2 \<le> of_int 512" using tb by simp
    then have "roundFinite (t1 + t2) \<le> of_int 512" by (rule roundFinite_le) simp
    then show "roundFinite (t1 + t2) \<le> 512" by simp
  qed
  have a2: "double (roundFinite (t1 + t2) + t3) = Num (roundFinite (roundFinite (t1 + t2) + t3))"
    using sb tb by (intro double_small) simp
  have r0: "rd d (4 * p) = Num r" using assms by (simp add: rd_def r_def)
  have r1: "rd d (4 * p + 1) = Num g" using assms by (simp add: rd_def g_def)
  have r2: "rd d (4 * p + 2) = Num b" using assms by (simp add: rd_def b_def)
  have j1: "jmul (double 0.299) (rd d (4 * p)) = Num t1"
    by (simp only: r0 w(1) jmul.simps m1 t1_def)
  have j2: "jmul (double 0.587) (rd d (4 * p + 1)) = Num t2"
    by (simp only: r1 w(2) jmul.simps m2 t2_def)
  have j3: "jmul (double 0.114) (rd d (4 * p + 2)) = Num t3"
    by (simp only: r2 w(3) jmul.simps m3 t3_def)
  have l: "luminance64 d p = roundFinite (roundFinite (t1 + t2) + t3)"
    by (simp only: luminance64_def t1_def t2_def t3_def r_def g_def b_def)
  show ?thesis
    by (simp only: gray_def j1 j2 j3 jadd.simps a1 a2 l)
qed

lemma gray_out_of_range: "length d \<le> i \<Longrightarrow> gray d i = NaN"
  by (simp add: gray_def rd_def)

lemma diffLoop_NaN: "diffLoop a b i NaN = NaN"
  by (induction a b i NaN rule: diffLoop.induct) (simp add: diffLoop.simps)

lemma delta_bounds:
  "0 \<le> \<bar>roundFinite (luminance64 a k - luminance64 b k)\<bar>
   \<and> \<bar>roundFinite (luminance64 a k - luminance64 b k)\<bar> \<le> 255"
proof -
  have "luminance64 a k - luminance64 b k \<le> of_int 255"
    using luminance64_bounds [of a k] luminance64_bounds [of b k] by simp
  then have u: "roundFinite (luminance64 a k - luminance64 b k) \<le> of_int 255"
    by (rule roundFinite_le) simp
  have "of_int (- 255) \<le> luminance64 a k - luminance64 b k"
    using luminance64_bounds [of a k] luminance64_bounds [of b k] by simp
  then have l: "of_int (- 255) \<le> roundFinite (luminance64 a k - luminance64 b k)"
    by (rule roundFinite_ge) simp
  show ?thesis using u l by simp
qed

text \<open>The rounded sum never leaves \<open>[0, 2 ^ 62]\<close>: above that a term of 255 is rounded away.\<close>

lemma saturation: "roundFinite (2 ^ 62 + 255) = 2 ^ 62"
  by (simp add: evalRound)

lemma deltaSum64_bounds: "0 \<le> deltaSum64 a b k \<and> deltaSum64 a b k \<le> 2 ^ 62"
proof (induction k)
  case 0
  show ?case by simp
next
  case (Suc k)
  let ?d = "\<bar>roundFinite (luminance64 a k - luminance64 b k)\<bar>"
  have d: "0 \<le> ?d \<and> ?d \<le> 255" by (rule delta_bounds)
  have "deltaSum64 a b k + ?d \<le> 2 ^ 62 + 255" using Suc d by linarith
  then have "roundFinite (deltaSum64 a b k + ?d) \<le> roundFinite (2 ^ 62 + 255)"
    by (rule roundFinite_mono)
  then have u: "roundFinite (deltaSum64 a b k + ?d) \<le> 2 ^ 62"
    unfolding saturation .
  have "0 \<le> roundFinite (deltaSum64 a b k + ?d)"
    using Suc d by (intro roundFinite_nonneg) simp
  with u show ?case by simp
qed

lemma deltaSum64_exact_bound:
  assumes "k \<le> 2 ^ 45"
  shows "deltaSum64 a b k \<le> 255 * real k"
  using assms
proof (induction k)
  case 0
  show ?case by simp
next
  case (Suc k)
  let ?d = "\<bar>roundFinite (luminance64 a k - luminance64 b k)\<bar>"
  have d: "?d \<le> 255" using delta_bounds [of a k b] by simp
  have ih: "deltaSum64 a b k \<le> 255 * real k" using Suc by simp
  have "deltaSum64 a b k + ?d \<le> of_int (255 * int (Suc k))" using ih d by simp
  moreover have "\<bar>255 * int (Suc k)\<bar> < 2 ^ 53"
  proof -
    have "int (Suc k) \<le> 2 ^ 45" using Suc.prems by (metis of_nat_le_iff of_nat_numeral of_nat_power)
    then show ?thesis by simp
  qed
  ultimately have "roundFinite (deltaSum64 a b k + ?d) \<le> of_int (255 * int (Suc k))"
    by (rule roundFinite_le)
  then show ?case by simp
qed

lemma diffLoop_sum:
  assumes "length a = 4 * n" "4 * n \<le> length b" "k \<le> n"
  shows "diffLoop a b (4 * k) (Num (deltaSum64 a b k)) = Num (deltaSum64 a b n)"
  using assms
proof (induction "n - k" arbitrary: k)
  case 0
  then show ?case by (simp add: diffLoop.simps)
next
  case (Suc m)
  then have lt: "k < n" and m: "m = n - Suc k" by linarith+
  let ?t = "roundFinite (luminance64 a k - luminance64 b k)"
  have "\<bar>luminance64 a k - luminance64 b k\<bar> \<le> 255"
    using luminance64_bounds [of a k] luminance64_bounds [of b k] by linarith
  then have "\<bar>luminance64 a k - luminance64 b k\<bar> \<le> 2 ^ 70" by simp
  then have sub: "double (luminance64 a k - luminance64 b k) = Num ?t"
    by (rule double_small)
  have add: "double (deltaSum64 a b k + \<bar>?t\<bar>) = Num (deltaSum64 a b (Suc k))"
  proof -
    have "\<bar>deltaSum64 a b k + \<bar>?t\<bar>\<bar> \<le> 2 ^ 70"
      using deltaSum64_bounds [of a b k] delta_bounds [of a k b] by simp
    then show ?thesis by (simp add: double_small)
  qed
  have step: "diffLoop a b (4 * k) (Num (deltaSum64 a b k))
      = diffLoop a b (4 * Suc k) (Num (deltaSum64 a b (Suc k)))"
    using lt Suc.prems
    by (subst diffLoop.simps) (simp add: gray_in_range jsub_def sub add add.commute del: deltaSum64.simps)
  show ?case
    unfolding step using Suc.hyps(1) [OF m] Suc.prems lt by simp
qed

lemma diffLoop_short:
  assumes "length b = 4 * m" "4 * m < length a" "k \<le> m"
  shows "diffLoop a b (4 * k) diff = NaN"
  using assms
proof (induction "m - k" arbitrary: k diff)
  case 0
  then have k: "k = m" by simp
  show ?case
    using 0(2-) unfolding k
    by (subst diffLoop.simps) (simp add: gray_out_of_range jsub_def diffLoop_NaN)
next
  case (Suc j)
  then have lt: "k < m" and j: "j = m - Suc k" by linarith+
  have "diffLoop a b (4 * Suc k) (jadd diff (jabs (jsub (gray a (4 * k)) (gray b (4 * k))))) = NaN"
    using Suc.hyps(1) [OF j] Suc.prems lt by simp
  then show ?case
    using lt Suc.prems by (subst diffLoop.simps) (simp add: add.commute)
qed

lemma calculate_short:
  assumes "length b = 4 * m" "4 * m < length a"
  shows "calculateFrameDifference a b = NaN"
proof -
  have "diffLoop a b (4 * 0) (Num 0) = NaN"
    using assms by (intro diffLoop_short [where m = m]) simp_all
  then show ?thesis by (simp add: calculateFrameDifference_def)
qed

lemma diffLoop_total:
  assumes "length a = 4 * n" "4 * n \<le> length b"
  shows "diffLoop a b 0 (Num 0) = Num (deltaSum64 a b n)"
  using diffLoop_sum [OF assms, of 0] by simp

lemma double_ge_one:
  assumes "1 \<le> x"
  shows "double x = PosInf \<or> (\<exists>y. double x = Num y \<and> 1 \<le> y)"
proof -
  have "of_int 1 \<le> x" using assms by simp
  then have "of_int 1 \<le> roundFinite x" by (rule roundFinite_ge) simp
  then have r: "1 \<le> roundFinite x" by simp
  show ?thesis
  proof (cases "2 ^ 1024 \<le> \<bar>roundFinite x\<bar>")
    case True
    then have "double x = PosInf" using assms by (simp add: double_def Let_def)
    then show ?thesis by simp
  next
    case False
    then have "double x = Num (roundFinite x)" by (simp add: double_def Let_def)
    then show ?thesis using r by simp
  qed
qed

lemma denominator_cases:
  assumes "0 < n"
  shows "jmul (Num 255) (jdiv (Num (real (4 * n))) (Num 4)) = PosInf
         \<or> (\<exists>y. jmul (Num 255) (jdiv (Num (real (4 * n))) (Num 4)) = Num y \<and> 1 \<le> y)"
proof -
  have inner: "jdiv (Num (real (4 * n))) (Num 4) = double (real n)" by simp
  have "1 \<le> real n" using assms by simp
  then consider "double (real n) = PosInf" | y where "double (real n) = Num y" "1 \<le> y"
    using double_ge_one by blast
  then show ?thesis
  proof cases
    case 1
    then show ?thesis unfolding inner by simp
  next
    case 2
    have "1 \<le> 255 * y" using 2(2) by simp
    then show ?thesis unfolding inner 2(1) jmul.simps by (rule double_ge_one)
  qed
qed

lemma denominator_exact:
  assumes "n < 2 ^ 45"
  shows "jmul (Num 255) (jdiv (Num (real (4 * n))) (Num 4)) = Num (255 * real n)"
    and "roundFinite (255 * roundFinite (real (4 * n) / 4)) = 255 * real n"
proof -
  have i: "int n < 2 ^ 45" using assms by (metis of_nat_less_iff of_nat_numeral of_nat_power)
  have "roundFinite (of_int (int n)) = of_int (int n)" using i by (intro roundFinite_of_int) simp
  then have rn: "roundFinite (real n) = real n" by simp
  have "roundFinite (of_int (255 * int n)) = of_int (255 * int n)"
    using i by (intro roundFinite_of_int) simp
  then have rp: "roundFinite (255 * real n) = 255 * real n" by simp
  have small: "\<bar>real n\<bar> \<le> 2 ^ 70" "\<bar>255 * real n\<bar> \<le> 2 ^ 70"
  proof -
    have "real_of_int (int n) < 2 ^ 45" using i by (metis of_int_less_iff of_int_numeral of_int_power)
    then have "real n < 2 ^ 45" by simp
    then show "\<bar>real n\<bar> \<le> 2 ^ 70" "\<bar>255 * real n\<bar> \<le> 2 ^ 70" by simp_all
  qed
  have inner: "jdiv (Num (real (4 * n))) (Num 4) = Num (real n)"
    using double_small [OF small(1)] rn by simp
  show "jmul (Num 255) (jdiv (Num (real (4 * n))) (Num 4)) = Num (255 * real n)"
    unfolding inner using double_small [OF small(2)] rp by simp
  have "real (4 * n) / 4 = real n" by simp
  then show "roundFinite (255 * roundFinite (real (4 * n) / 4)) = 255 * real n"
    using rn rp by simp
qed

lemma deltaSum64_self: "deltaSum64 f f k = 0"
  by (induction k) simp_all

lemma luminance64_take:
  assumes "4 * k + 2 < m"
  shows "luminance64 (take m b) k = luminance64 b k"
  using assms by (simp add: luminance64_def)

lemma deltaSum64_take:
  assumes "4 * k \<le> m"
  shows "deltaSum64 a (take m b) k = deltaSum64 a b k"
  using assms
proof (induction k)
  case 0
  show ?case by simp
next
  case (Suc k)
  then have "4 * k + 2 < m" by simp
  then have "luminance64 (take m b) k = luminance64 b k" by (rule luminance64_take)
  then show ?case using Suc by simp
qed

lemma calculate_take:
  assumes "length a = 4 * n" "4 * n \<le> length b"
  shows "calculateFrameDifference a b = calculateFrameDifference a (take (length a) b)"
proof -
  have "diffLoop a (take (length a) b) 0 (Num 0) = Num (deltaSum64 a (take (length a) b) n)"
    using assms by (intro diffLoop_total) simp_all
  also have "\<dots> = Num (deltaSum64 a b n)" using assms(1) by (simp add: deltaSum64_take)
  also have "\<dots> = diffLoop a b 0 (Num 0)" using diffLoop_total [OF assms] by simp
  finally show ?thesis by (simp add: calculateFrameDifference_def)
qed

lemma calculate_numeric:
  assumes "length a = 4 * n" "4 * n \<le> length b" "0 < n"
  shows "\<exists>x. calculateFrameDifference a b = Num x"
proof -
  define S where "S = deltaSum64 a b n"
  have S: "0 \<le> S \<and> S \<le> 2 ^ 62" unfolding S_def by (rule deltaSum64_bounds)
  have loop: "diffLoop a b 0 (Num 0) = Num S" unfolding S_def by (rule diffLoop_total [OF assms(1,2)])
  define D where "D = jmul (Num 255) (jdiv (Num (real (length a))) (Num 4))"
  have D: "D = PosInf \<or> (\<exists>y. D = Num y \<and> 1 \<le> y)"
    unfolding D_def assms(1) by (rule denominator_cases [OF assms(3)])
  have "\<exists>q. jdiv (Num S) D = Num q \<and> 0 \<le> q \<and> q \<le> 2 ^ 62"
  proof -
    consider "D = PosInf" | y where "D = Num y" "1 \<le> y" using D by blast
    then show ?thesis
    proof cases
      case 1
      then show ?thesis by simp
    next
      case 2
      have pos: "0 \<le> S / y" using S 2(2) by simp
      have "S / y \<le> S / 1" using S 2(2) by (intro divide_left_mono) simp_all
      then have le: "S / y \<le> 2 ^ 62" using S by simp
      have "double (S / y) = Num (roundFinite (S / y))" using pos le by (intro double_small) simp
      moreover have "0 \<le> roundFinite (S / y)" using pos by (rule roundFinite_nonneg)
      moreover have "roundFinite (S / y) \<le> 2 ^ 62"
      proof -
        have "roundFinite (S / y) \<le> roundFinite (2 powi 62)"
          using le by (intro roundFinite_mono) (simp only: power_int_numeral; simp)
        also have "\<dots> = 2 powi 62" by (rule roundFinite_two_power) simp
        finally show ?thesis by (simp only: power_int_numeral; simp)
      qed
      ultimately show ?thesis using 2 by simp
    qed
  qed
  then obtain q where q: "jdiv (Num S) D = Num q" "0 \<le> q" "q \<le> 2 ^ 62" by blast
  have "\<bar>q * 100\<bar> \<le> 2 ^ 70" using q(2,3) by simp
  then have dr: "double (q * 100) = Num (roundFinite (q * 100))" by (rule double_small)
  have "calculateFrameDifference a b = jmul (jdiv (Num S) D) (Num 100)"
    by (simp only: calculateFrameDifference_def Let_def loop D_def)
  then have "calculateFrameDifference a b = Num (roundFinite (q * 100))"
    by (simp add: q(1) dr)
  then show ?thesis by blast
qed

lemma calculate_self:
  assumes "length f = 4 * n" "0 < n"
  shows "calculateFrameDifference f f = Num 0"
proof -
  have loop: "diffLoop f f 0 (Num 0) = Num 0"
    using diffLoop_total [of f n f] assms(1) by (simp add: deltaSum64_self)
  define D where "D = jmul (Num 255) (jdiv (Num (real (length f))) (Num 4))"
  have D: "D = PosInf \<or> (\<exists>y. D = Num y \<and> 1 \<le> y)"
    unfolding D_def assms(1) by (rule denominator_cases [OF assms(2)])
  have z: "double 0 = Num 0" using double_small [of 0] by simp
  have q: "jdiv (Num 0) D = Num 0" using D z by auto
  have "calculateFrameDifference f f = jmul (jdiv (Num 0) D) (Num 100)"
    by (simp only: calculateFrameDifference_def Let_def loop D_def)
  then show ?thesis by (simp add: q z)
qed

lemma calculate_double:
  assumes "length a = 4 * n" "4 * n \<le> length b" "0 < n" "n < 2 ^ 45"
  shows "calculateFrameDifference a b = Num (difference64 a b)
         \<and> 0 \<le> difference64 a b \<and> difference64 a b \<le> 100"
proof -
  define S where "S = deltaSum64 a b n"
  have n: "n \<le> 2 ^ 45" using assms(4) by simp
  have S: "0 \<le> S" "S \<le> 255 * real n"
    unfolding S_def using deltaSum64_bounds [of a b n] deltaSum64_exact_bound [OF n, of a b]
    by simp_all
  have loop: "diffLoop a b 0 (Num 0) = Num S" unfolding S_def by (rule diffLoop_total [OF assms(1,2)])
  have pn: "0 < 255 * real n" using assms(3) by simp
  define q where "q = roundFinite (S / (255 * real n))"
  have q0: "0 \<le> S / (255 * real n)" using S(1) pn by simp
  have q1: "S / (255 * real n) \<le> 1" using S(2) pn by simp
  have qb: "0 \<le> q" "q \<le> 1"
  proof -
    show "0 \<le> q" unfolding q_def using q0 by (rule roundFinite_nonneg)
    have "S / (255 * real n) \<le> of_int 1" using q1 by simp
    then have "roundFinite (S / (255 * real n)) \<le> of_int 1" by (rule roundFinite_le) simp
    then show "q \<le> 1" unfolding q_def by simp
  qed
  have dq: "double (S / (255 * real n)) = Num q"
    unfolding q_def using q0 q1 by (intro double_small) simp
  have dr: "double (q * 100) = Num (roundFinite (q * 100))"
    using qb by (intro double_small) simp
  have d64: "difference64 a b = roundFinite (q * 100)"
    unfolding difference64_def Let_def assms(1) denominator_exact(2) [OF assms(4)] q_def S_def
    by simp
  have calc: "calculateFrameDifference a b = Num (roundFinite (q * 100))"
    unfolding calculateFrameDifference_def Let_def loop assms(1) denominator_exact(1) [OF assms(4)]
    using pn dq dr by simp
  have lo: "0 \<le> roundFinite (q * 100)" using qb by (intro roundFinite_nonneg) simp
  have "q * 100 \<le> of_int 100" using qb by simp
  then have "roundFinite (q * 100) \<le> of_int 100" by (rule roundFinite_le) simp
  then have hi: "roundFinite (q * 100) \<le> 100" by simp
  show ?thesis using calc d64 lo hi by simp
qed

text \<open>The differencer on the sample frames, by evaluation.\<close>

lemma difference_black_white: "calculateFrameDifference black white = Num 100"
  by (simp add: evalDifference evalRound black_def white_def)

lemma difference_white_black: "calculateFrameDifference white black = Num 100"
  by (simp add: evalDifference evalRound black_def white_def)

lemma difference_black_black: "calculateFrameDifference black black = Num 0"
  by (simp add: evalDifference evalRound black_def)

lemma difference_white_white: "calculateFrameDifference white white = Num 0"
  by (simp add: evalDifference evalRound white_def)

section \<open>Lemmas about the segmentation run\<close>

lemmas run_defs =
  processVideo_def segment_def scaledDimensions_def settings10_def clip_def
  sampleLoop.simps processSample_def isSceneCut_def emitScene_def createGifFromFrames_def
  initialRun_def MIN_SCENE_FRAMES_def DIFFERENCE_THRESHOLD_def
  difference_black_white difference_white_black difference_black_black
  difference_white_white Let_def








lemma render_failure:
  assumes "int i < tot" "\<not> abortedAt e i" "seek e i = Some (hi, cur)"
    and "isSceneCut (lastFrameData st) cur"
    and "MIN_SCENE_FRAMES \<le> length (currentSceneFrames st)"
    and "render e (currentSceneFrames st) (sceneCount st + 1) = None"
  shows "sampleLoop settings baseName e tot i st =
           Throw (RenderTimeout (sceneCount st + 1)) (st\<lparr>sceneCount := sceneCount st + 1\<rparr>)"
proof -
  have "currentSceneFrames st \<noteq> []" using assms(5) by (auto simp: MIN_SCENE_FRAMES_def)
  then show ?thesis
    using assms
    by (subst sampleLoop.simps) (simp add: processSample_def emitScene_def createGifFromFrames_def)
qed

lemma thrown_run:
  assumes "\<not> abortedAtStart e" "contexts e"
    and "scaledDimensions (resolution settings) (videoWidth v) (videoHeight v) = (w, h)"
    and "w \<noteq> 0" "h \<noteq> 0"
    and "sampleLoop settings baseName e \<lfloor>duration v * frameRate settings\<rfloor> 0 initialRun
           = Throw err st"
  shows "processVideo settings baseName v e = st\<lparr>error := Some err, isProcessing := False\<rparr>"
  using assms
  by (simp add: processVideo_def segment_def Let_def split: prod.splits)

lemma sampleLoop_after_runSamples:
  "sampleLoop settings baseName e tot i st =
     (case runSamples settings baseName e tot i n st of
        Normal st1 \<Rightarrow> sampleLoop settings baseName e tot (i + n) st1
      | other \<Rightarrow> other)"
proof (induction n arbitrary: i st)
  case 0
  show ?case by (subst runSamples.simps) simp
next
  case (Suc n)
  show ?case
  proof (cases "int i < tot")
    case False
    then show ?thesis
      by (subst runSamples.simps) (simp add: sampleLoop.simps)
  next
    case True
    show ?thesis
    proof (cases "processSample settings baseName e tot i st")
      case (Normal st1)
      have shift: "i + 1 + n = i + Suc n" by simp
      show ?thesis
        using True Normal Suc.IH [of "i + 1" st1, unfolded shift]
        by (subst runSamples.simps, subst sampleLoop.simps) simp
    next
      case (Return st1)
      then show ?thesis
        using True by (subst runSamples.simps, subst sampleLoop.simps) simp
    next
      case (Throw err st1)
      then show ?thesis
        using True by (subst runSamples.simps, subst sampleLoop.simps) simp
    qed
  qed
qed

lemma take_whole_length:
  assumes "take (length fs) xs = fs"
  shows "length fs \<le> length xs"
proof -
  have "length (take (length fs) xs) = length fs" by (rule arg_cong [OF assms])
  then show ?thesis by simp
qed

lemma emitScene_carried:
  assumes "carried fs n st"
  shows "carried fs n (stateOf (emitScene e baseName st))"
  using assms
  by (auto simp: emitScene_def createGifFromFrames_def carried_def Let_def nth_append
      split: option.splits if_splits)

lemma emitScene_pushes:
  assumes "currentSceneFrames st \<noteq> []" "emitScene e baseName st = Normal st'"
  shows "\<exists>sc. scenes st' = scenes st @ [sc] \<and> frames sc = currentSceneFrames st
              \<and> processedScenes st' = scenes st'"
  using assms
  by (auto simp: emitScene_def createGifFromFrames_def Let_def split: option.splits if_splits)

lemma processSample_carried:
  assumes "carried fs n st"
  shows "carried fs n (stateOf (processSample settings baseName e tot i st))"
proof (cases "abortedAt e i")
  case True
  then show ?thesis using assms by (simp add: processSample_def)
next
  case live: False
  show ?thesis
  proof (cases "seek e i")
    case None
    then show ?thesis using live assms by (simp add: processSample_def)
  next
    case (Some p)
    obtain hi cur where p: "p = (hi, cur)" by (cases p)
    show ?thesis
    proof (cases "isSceneCut (lastFrameData st) cur
                  \<and> MIN_SCENE_FRAMES \<le> length (currentSceneFrames st)")
      case False
      then have "processSample settings baseName e tot i st =
          Normal (st\<lparr>currentSceneFrames :=
                        currentSceneFrames st @ [\<lparr>data = hi, delay = 1000 / frameRate settings\<rparr>],
                     lastFrameData := Some cur,
                     progress := real (i + 1) / real_of_int tot * 100\<rparr>)"
        using live Some p by (auto simp: processSample_def)
      then show ?thesis
        using assms by (auto simp: carried_def dest: take_whole_length)
    next
      case True
      then have ne: "currentSceneFrames st \<noteq> []" by (auto simp: MIN_SCENE_FRAMES_def)
      have c: "carried fs n (stateOf (emitScene e baseName st))"
        using assms by (rule emitScene_carried)
      show ?thesis
      proof (cases "emitScene e baseName st")
        case (Normal st1)
        obtain sc where sc: "scenes st1 = scenes st @ [sc]"
          using emitScene_pushes [OF ne Normal] by blast
        have "n \<le> length (scenes st)" using assms by (auto simp: carried_def split: if_splits)
        then have lt: "n < length (scenes st1)" using sc by simp
        have "processSample settings baseName e tot i st =
          Normal (st1\<lparr>currentSceneFrames := [\<lparr>data = hi, delay = 1000 / frameRate settings\<rparr>],
                      lastFrameData := Some cur,
                      progress := real (i + 1) / real_of_int tot * 100\<rparr>)"
          using live Some p True Normal by (simp add: processSample_def)
        then show ?thesis
          using c Normal lt by (simp add: carried_def)
      next
        case (Return st1)
        then have "processSample settings baseName e tot i st = Return st1"
          using live Some p True by (simp add: processSample_def)
        then show ?thesis using c Return by simp
      next
        case (Throw err st1)
        then have "processSample settings baseName e tot i st = Throw err st1"
          using live Some p True by (simp add: processSample_def)
        then show ?thesis using c Throw by simp
      qed
    qed
  qed
qed

lemma sampleLoop_carried:
  "carried fs n st \<Longrightarrow> carried fs n (stateOf (sampleLoop settings baseName e tot i st))"
proof (induction settings baseName e tot i st rule: sampleLoop.induct)
  case (1 settings baseName e tot i st)
  show ?case
  proof (cases "int i < tot")
    case False
    then show ?thesis using 1(2) by (subst sampleLoop.simps) simp
  next
    case True
    have c: "carried fs n (stateOf (processSample settings baseName e tot i st))"
      using 1(2) by (rule processSample_carried)
    show ?thesis
    proof (cases "processSample settings baseName e tot i st")
      case (Normal st1)
      then have "carried fs n st1" using c by simp
      then have "carried fs n (stateOf (sampleLoop settings baseName e tot (i + 1) st1))"
        using 1(1) [OF True Normal] by simp
      then show ?thesis using True Normal by (subst sampleLoop.simps) simp
    next
      case (Return st1)
      then show ?thesis using True c by (subst sampleLoop.simps) simp
    next
      case (Throw err st1)
      then show ?thesis using True c by (subst sampleLoop.simps) simp
    qed
  qed
qed

lemma final_emit_carried:
  assumes "carried fs n s" "MIN_SCENE_FRAMES \<le> length (currentSceneFrames s)"
    and "emitScene e baseName s = Normal s'"
  shows "n < length (scenes s') \<and> take (length fs) (frames (scenes s' ! n)) = fs
         \<and> processedScenes s' = scenes s'"
proof -
  have ne: "currentSceneFrames s \<noteq> []" using assms(2) by (auto simp: MIN_SCENE_FRAMES_def)
  obtain sc where sc: "scenes s' = scenes s @ [sc]" and pub: "processedScenes s' = scenes s'"
    using emitScene_pushes [OF ne assms(3)] by blast
  have "n \<le> length (scenes s)" using assms(1) by (auto simp: carried_def split: if_splits)
  then have lt: "n < length (scenes s')" using sc by simp
  have "carried fs n s'" using emitScene_carried [OF assms(1), of e baseName] assms(3) by simp
  then show ?thesis using lt pub by (simp add: carried_def)
qed

lemma showNat_one: "showNat (Suc 0) = ''1''"
  by (simp add: showNat.simps)

lemmas blip_defs = showNat_one blipEnv_def blipAtSixteen_def blipAtSeventeen_def blipKept_def
  blipSceneOne_def blipAfterLoop_def blipFinal_def

section \<open>Lemmas about the timeline\<close>



lemma slice_in_range:
  assumes "0 \<le> s" "s \<le> e" "e \<le> int (length xs)"
  shows "slice_array xs s e = take (nat e - nat s) (drop (nat s) xs)"
  using assms by (simp add: slice_array_def Let_def nat_diff_distrib)

lemma take_drop_nths:
  assumes "k + n \<le> length xs"
  shows "take n (drop k xs) = map (\<lambda>i. xs ! i) [k..<k + n]"
proof (rule nth_equalityI)
  show "length (take n (drop k xs)) = length (map (\<lambda>i. xs ! i) [k..<k + n])"
    using assms by simp
next
  fix i assume "i < length (take n (drop k xs))"
  then have "i < n" by simp
  then show "take n (drop k xs) ! i = map (\<lambda>i. xs ! i) [k..<k + n] ! i"
    using assms by simp
qed

lemma slice_nths:
  assumes "0 \<le> s" "s \<le> e" "e \<le> int (length xs)"
  shows "slice_array xs s e = map (\<lambda>i. xs ! i) [nat s..<nat e]"
proof -
  have "nat s + (nat e - nat s) \<le> length xs" using assms by linarith
  then have "take (nat e - nat s) (drop (nat s) xs)
               = map (\<lambda>i. xs ! i) [nat s..<nat s + (nat e - nat s)]"
    by (rule take_drop_nths)
  moreover have "nat s + (nat e - nat s) = nat e" using assms by linarith
  ultimately show ?thesis using slice_in_range [OF assms] by simp
qed


lemma flattenEffect_invariant: "trimInvariant (flattenEffect c)"
  by (simp add: trimInvariant_def flattenEffect_def Let_def)

lemma flattenEffect_span:
  "flatFrames (flattenEffect c) = concat (map gifFrames (orderedGifs c))
   \<and> orderedGifs (flattenEffect c) = orderedGifs c
   \<and> trimStart (flattenEffect c) = 0
   \<and> trimEnd (flattenEffect c) = sliderMax (flattenEffect c)"
  by (simp add: flattenEffect_def sliderMax_def Let_def)

lemma reorder_Inr:
  assumes "reorder from to c = Inr c'"
  shows "\<exists>c1. handleDragSort (Some from) (Some to) c = Inr c1 \<and> c' = flattenEffect c1"
  using assms by (auto simp: reorder_def split: sum.splits)

lemma startTrim_invariant:
  assumes "trimInvariant c" "0 \<le> i" "i \<le> sliderMax c"
  shows "trimInvariant (handleStartTrimChange i c)"
  using assms
  by (auto simp: trimInvariant_def handleStartTrimChange_def sliderMax_def split: if_splits)

lemma endTrim_invariant:
  assumes "trimInvariant c" "0 \<le> i" "i \<le> sliderMax c"
  shows "trimInvariant (handleEndTrimChange i c)"
  using assms
  by (auto simp: trimInvariant_def handleEndTrimChange_def sliderMax_def split: if_splits)

lemma generate_Some:
  assumes "trimInvariant c" "flatFrames c \<noteq> []" "orderedGifs c \<noteq> []" "workerUrl c \<noteq> None"
  shows "generateCombinedGif c =
           Some \<lparr>gifWidth = width (hd (orderedGifs c)), gifHeight = height (hd (orderedGifs c)),
                 addedFrames =
                   map (\<lambda>i. flatFrames c ! i) [nat (trimStart c)..<nat (trimEnd c + 1)]\<rparr>"
proof -
  have b: "0 \<le> trimStart c" "trimStart c \<le> trimEnd c + 1"
    "trimEnd c + 1 \<le> int (length (flatFrames c))"
    using assms(1,2) by (simp_all add: trimInvariant_def)
  have le: "trimStart c \<le> trimEnd c" using assms(1,2) by (simp add: trimInvariant_def)
  show ?thesis
    using assms(2-) b le
    by (simp add: generateCombinedGif_def Let_def slice_nths [OF b]; linarith)
qed

lemma generate_frames:
  assumes "trimInvariant c" "generateCombinedGif c = Some req"
  shows "addedFrames req = map (\<lambda>i. flatFrames c ! i) [nat (trimStart c)..<nat (trimEnd c + 1)]
         \<and> int (length (addedFrames req)) = trimEnd c - trimStart c + 1"
proof -
  have ne: "flatFrames c \<noteq> []" "orderedGifs c \<noteq> []" "workerUrl c \<noteq> None"
    using assms(2) by (auto simp: generateCombinedGif_def split: if_splits)
  have b: "0 \<le> trimStart c" "trimStart c \<le> trimEnd c"
    using assms(1) ne(1) by (simp_all add: trimInvariant_def)
  show ?thesis
    using generate_Some [OF assms(1) ne] assms(2) b by auto
qed

lemmas timeline_defs =
  timeline_def clipA_def clipB_def trimInvariant_def sliderMax_def handleStartTrimChange_def
  handleEndTrimChange_def reorder_def handleDragSort_def flattenEffect_def initialCombiner_def
  generateCombinedGif_def durationsMemo_def sumDelays_def slice_array_def Let_def

section \<open>Frame differencer: claims\<close>

lemma sum_two_pixels: "(\<Sum>p<(2::nat). f p) = f 0 + (f 1 :: real)"
  by (simp add: lessThan_Suc numeral_2_eq_2)

lemma deltaSum64_two:
  "deltaSum64 a b 2
     = roundFinite (roundFinite (0 + \<bar>roundFinite (luminance64 a 0 - luminance64 b 0)\<bar>)
                    + \<bar>roundFinite (luminance64 a 1 - luminance64 b 1)\<bar>)"
  by (simp add: numeral_2_eq_2)

text \<open>
  Claim C6, as amended. For two frame buffers of the same dimensions with at least one pixel
  (equal lengths, a positive multiple of four bytes) and fewer than \<open>2 ^ 45\<close> pixels,
  \<open>calculateFrameDifference\<close> returns the specification's formula as double-precision
  arithmetic evaluates it: luminance \<open>0.299 R + 0.587 G + 0.114 B\<close> with alpha ignored, the
  absolute luminance deltas summed pixel by pixel, the sum divided by \<open>255 \<times> pixelCount\<close>
  and multiplied by 100, each operation rounded to the nearest double. That number lies in
  \<open>[0, 100]\<close>. Below the bound the running sum is an amount that rounding cannot push
  past \<open>255 \<times> pixelCount\<close>.
\<close>

theorem differencer_rounded_formula_and_range:
  assumes "length a = length b" "4 dvd length a" "0 < length a" "length a < 2 ^ 47"
  shows "calculateFrameDifference a b = Num (difference64 a b)
         \<and> 0 \<le> difference64 a b \<and> difference64 a b \<le> 100"
proof -
  obtain n where n: "length a = 4 * n" using assms(2) unfolding dvd_def by blast
  then have pos: "0 < n" using assms(3) by simp
  have "4 * n < 4 * 2 ^ 45" using assms(4) n by simp
  then have small: "n < 2 ^ 45" by simp
  have "4 * n \<le> length b" using n assms(1) by simp
  then show ?thesis using n pos small by (intro calculate_double [where n = n])
qed

theorem differencer_rounded_formula_and_range_witness:
  "length [255, 0, 0, 255, 10, 20, 30, 0 :: 8 word] = length [0, 0, 255, 255, 10, 20, 30, 9 :: 8 word]
   \<and> 4 dvd length [255, 0, 0, 255, 10, 20, 30, 0 :: 8 word]
   \<and> length [255, 0, 0, 255, 10, 20, 30, 0 :: 8 word] < 2 ^ 47
   \<and> calculateFrameDifference [255, 0, 0, 255, 10, 20, 30, 0] [0, 0, 255, 255, 10, 20, 30, 9]
       = Num (difference64 [255, 0, 0, 255, 10, 20, 30, 0] [0, 0, 255, 255, 10, 20, 30, 9])
   \<and> difference64 [255, 0, 0, 255, 10, 20, 30, 0] [0, 0, 255, 255, 10, 20, 30, 9]
       = 5207287069147135 / 562949953421312
   \<and> difference64 [255, 0, 0, 255, 10, 20, 30, 0] [0, 0, 255, 255, 10, 20, 30, 9] \<le> 100"
proof -
  let ?a = "[255, 0, 0, 255, 10, 20, 30, 0 :: 8 word]"
  let ?b = "[0, 0, 255, 255, 10, 20, 30, 9 :: 8 word]"
  have len: "length ?a = length ?b" by simp
  have four: "4 dvd length ?a" by code_simp
  have pos: "0 < length ?a" by simp
  have small: "length ?a < 2 ^ 47" by simp
  have count: "length ?a div 4 = 2" by simp
  have total: "deltaSum64 ?a ?b 2 = 6639291013162597 / 140737488355328"
    by (simp add: deltaSum64_two luminance64_def evalRound)
  have scale: "roundFinite (255 * roundFinite (real (length ?a) / 4)) = 510"
    by (simp add: evalRound)
  have val: "difference64 ?a ?b = 5207287069147135 / 562949953421312"
    unfolding difference64_def Let_def count total scale by (simp add: evalRound)
  note inst = differencer_rounded_formula_and_range [OF len four pos small]
  show ?thesis
    by (intro conjI len four small val conjunct1 [OF inst] conjunct2 [OF conjunct2 [OF inst]])
qed

text \<open>
  The claim as written asks for the exact value of the formula. On a red pixel against a
  blue one followed by a pixel that differs in alpha only, the exact value is 9.25 and the
  differencer returns the double just below it, 9.249999999999998.
\<close>

theorem differencer_result_is_rounded:
  "length [255, 0, 0, 255, 10, 20, 30, 0 :: 8 word] = length [0, 0, 255, 255, 10, 20, 30, 9 :: 8 word]
   \<and> 4 dvd length [255, 0, 0, 255, 10, 20, 30, 0 :: 8 word]
   \<and> specDifference [255, 0, 0, 255, 10, 20, 30, 0] [0, 0, 255, 255, 10, 20, 30, 9] = 9.25
   \<and> calculateFrameDifference [255, 0, 0, 255, 10, 20, 30, 0] [0, 0, 255, 255, 10, 20, 30, 9]
       = Num (5207287069147135 / 562949953421312)
   \<and> calculateFrameDifference [255, 0, 0, 255, 10, 20, 30, 0] [0, 0, 255, 255, 10, 20, 30, 9]
       \<noteq> Num (specDifference [255, 0, 0, 255, 10, 20, 30, 0] [0, 0, 255, 255, 10, 20, 30, 9])"
proof -
  let ?a = "[255, 0, 0, 255, 10, 20, 30, 0 :: 8 word]"
  let ?b = "[0, 0, 255, 255, 10, 20, 30, 9 :: 8 word]"
  have len: "length ?a = length ?b" by simp
  have four: "4 dvd length ?a" by code_simp
  have spec: "specDifference ?a ?b = 9.25"
    by (simp add: specDifference_def luminance_def sum_two_pixels)
  have code: "calculateFrameDifference ?a ?b = Num (5207287069147135 / 562949953421312)"
    by (simp add: evalDifference evalRound)
  have ne: "calculateFrameDifference ?a ?b \<noteq> Num (specDifference ?a ?b)"
    unfolding spec code by simp
  show ?thesis
    by (intro conjI len four spec code ne)
qed

text \<open>
  Claim C7, as amended. For every frame buffer \<open>f\<close> with at least one pixel (a length that
  is a positive multiple of four bytes), the differencer applied to \<open>f\<close> and itself
  returns 0.
\<close>

theorem difference_with_itself:
  assumes "4 dvd length f" "0 < length f"
  shows "calculateFrameDifference f f = Num 0"
proof -
  obtain n where n: "length f = 4 * n" using assms(1) unfolding dvd_def by blast
  then have pos: "0 < n" using assms(2) by simp
  show ?thesis using n pos by (rule calculate_self)
qed

theorem difference_with_itself_witness:
  "4 dvd length [12, 200, 7, 255, 90, 91, 92, 0 :: 8 word]
   \<and> 0 < length [12, 200, 7, 255, 90, 91, 92, 0 :: 8 word]
   \<and> calculateFrameDifference [12, 200, 7, 255, 90, 91, 92, 0] [12, 200, 7, 255, 90, 91, 92, 0]
       = Num 0"
proof -
  let ?f = "[12, 200, 7, 255, 90, 91, 92, 0 :: 8 word]"
  have four: "4 dvd length ?f" by code_simp
  have pos: "0 < length ?f" by simp
  show ?thesis
    using difference_with_itself [OF four pos] four pos by blast
qed

text \<open>
  The claim as written covers the buffer with no pixel. There the loop body never runs and
  the result is \<open>0 / (255 * 0)\<close>, which is \<open>NaN\<close> and not 0.
\<close>

theorem difference_of_empty_buffer:
  "calculateFrameDifference [] [] = NaN \<and> calculateFrameDifference [] [] \<noteq> Num 0"
  by (simp add: calculateFrameDifference_def diffLoop.simps)

text \<open>
  Claim C3, as amended. The differencer checks no dimensions and raises no error. Given two
  frame buffers of unequal length (each a multiple of four bytes), it returns \<open>NaN\<close> when
  the second is the shorter one, and when the second is the longer one and the first has at
  least one pixel it returns a number: the score of the first buffer against the leading
  pixels of the second.
\<close>

theorem differencer_unequal_lengths:
  assumes "length a \<noteq> length b" "4 dvd length a" "4 dvd length b"
  shows "(length b < length a \<longrightarrow> calculateFrameDifference a b = NaN)
         \<and> (length a < length b \<and> 0 < length a
              \<longrightarrow> (\<exists>x. calculateFrameDifference a b = Num x)
                  \<and> calculateFrameDifference a b
                      = calculateFrameDifference a (take (length a) b))"
proof (intro conjI impI)
  assume lt: "length b < length a"
  obtain m where m: "length b = 4 * m" using assms(3) unfolding dvd_def by blast
  show "calculateFrameDifference a b = NaN"
    using m lt by (intro calculate_short [where m = m]) simp_all
next
  assume lt: "length a < length b \<and> 0 < length a"
  obtain n where n: "length a = 4 * n" using assms(2) unfolding dvd_def by blast
  then have pos: "0 < n" using lt by simp
  have le: "4 * n \<le> length b" using n lt by simp
  show "\<exists>x. calculateFrameDifference a b = Num x"
    using n le pos by (rule calculate_numeric)
  show "calculateFrameDifference a b = calculateFrameDifference a (take (length a) b)"
    using n le by (rule calculate_take)
qed

theorem differencer_unequal_lengths_witness:
  "length (black @ white) \<noteq> length white
   \<and> 4 dvd length white \<and> 4 dvd length (black @ white)
   \<and> length white < length (black @ white) \<and> 0 < length white
   \<and> calculateFrameDifference (black @ white) white = NaN
   \<and> calculateFrameDifference white (black @ white)
       = calculateFrameDifference white (take (length white) (black @ white))
   \<and> take (length white) (black @ white) = black
   \<and> calculateFrameDifference white black = Num 100"
proof -
  have ne: "length (black @ white) \<noteq> length white" "length white \<noteq> length (black @ white)"
    by (simp_all add: black_def white_def)
  have four: "4 dvd length white" "4 dvd length (black @ white)"
    by (code_simp, code_simp)
  have lt: "length white < length (black @ white)" "0 < length white"
    by (simp_all add: black_def white_def)
  have tk: "take (length white) (black @ white) = black"
    by (simp add: black_def white_def)
  have val: "calculateFrameDifference white black = Num 100"
    by (rule difference_white_black)
  show ?thesis
    using differencer_unequal_lengths [OF ne(1) four(2) four(1)]
      differencer_unequal_lengths [OF ne(2) four(1) four(2)] ne four lt tk val
    by blast
qed

text \<open>
  The claim as written fails where the second buffer is the longer one: a one-pixel buffer
  against a two-pixel buffer yields the number 100, not an error.
\<close>

theorem differencer_accepts_unequal_lengths:
  "length white \<noteq> length (black @ white)
   \<and> calculateFrameDifference white (black @ white) = Num 100"
  by (simp add: evalDifference evalRound black_def white_def)

section \<open>Scene segmentation: claims\<close>

text \<open>
  Claim C1, as amended. When a boundary is detected and the accumulating run has fewer than
  \<open>MIN_SCENE_FRAMES\<close> frames, no scene is emitted and the run is kept: the boundary is
  ignored and the current sample's frame is appended to the same accumulation. The kept
  frames, in order, then open the next scene the pass emits: for the rest of the sampling
  loop, however it ends, they stand at the head of the first scene pushed after this sample,
  and while no such scene exists at the head of the open accumulation; and when the closing
  emission after the loop succeeds, that scene exists, opens with them, and is published.
\<close>

theorem short_run_survives_boundary:
  assumes "\<not> abortedAt e i" "seek e i = Some (hi, cur)"
    and "isSceneCut (lastFrameData st) cur"
    and "length (currentSceneFrames st) < MIN_SCENE_FRAMES"
    and "kept = currentSceneFrames st @ [\<lparr>data = hi, delay = 1000 / frameRate settings\<rparr>]"
    and "next = st\<lparr>currentSceneFrames := kept, lastFrameData := Some cur,
                     progress := real (i + 1) / real_of_int tot * 100\<rparr>"
    and "after = stateOf (sampleLoop settings baseName e tot (i + 1) next)"
  shows "processSample settings baseName e tot i st = Normal next
         \<and> carried kept (length (scenes st)) after
         \<and> (MIN_SCENE_FRAMES \<le> length (currentSceneFrames after)
              \<and> emitScene e baseName after = Normal final
            \<longrightarrow> length (scenes st) < length (scenes final)
                \<and> take (length kept) (frames (scenes final ! length (scenes st))) = kept
                \<and> processedScenes final = scenes final)"
proof (intro conjI impI)
  show step: "processSample settings baseName e tot i st = Normal next"
    using assms(1-4) unfolding assms(5,6) by (simp add: processSample_def)
  have "carried kept (length (scenes st)) next"
    unfolding assms(6) by (simp add: carried_def)
  then show c: "carried kept (length (scenes st)) after"
    unfolding assms(7) by (rule sampleLoop_carried)
  assume "MIN_SCENE_FRAMES \<le> length (currentSceneFrames after)
          \<and> emitScene e baseName after = Normal final"
  then have f: "length (scenes st) < length (scenes final)
       \<and> take (length kept) (frames (scenes final ! length (scenes st))) = kept
       \<and> processedScenes final = scenes final"
    using final_emit_carried [OF c] by blast
  show "length (scenes st) < length (scenes final)" using f by simp
  show "take (length kept) (frames (scenes final ! length (scenes st))) = kept" using f by simp
  show "processedScenes final = scenes final" using f by simp
qed

theorem short_run_survives_boundary_witness:
  "runSamples settings10 None blipEnv 26 0 16 initialRun = Normal blipAtSixteen
   \<and> \<not> abortedAt blipEnv 16 \<and> seek blipEnv 16 = Some (16, white)
   \<and> isSceneCut (lastFrameData blipAtSixteen) white
   \<and> length (currentSceneFrames blipAtSixteen) < MIN_SCENE_FRAMES
   \<and> processSample settings10 None blipEnv 26 16 blipAtSixteen = Normal blipAtSeventeen
   \<and> carried blipKept (length (scenes blipAtSixteen)) blipAfterLoop
   \<and> MIN_SCENE_FRAMES \<le> length (currentSceneFrames blipAfterLoop)
   \<and> emitScene blipEnv None blipAfterLoop = Normal blipFinal
   \<and> length (scenes blipAtSixteen) < length (scenes blipFinal)
   \<and> take (length blipKept) (frames (scenes blipFinal ! length (scenes blipAtSixteen))) = blipKept
   \<and> processedScenes blipFinal = scenes blipFinal
   \<and> map data (frames (processedScenes blipFinal ! 1))
       = [10, 11, 12, 13, 14, 15, 16, 17, 18, 19, 20, 21, 22, 23, 24, 25]"
proof -
  have reach: "runSamples settings10 None blipEnv 26 0 16 initialRun = Normal blipAtSixteen"
    by (simp add: runSamples.simps run_defs blip_defs)
  have pre: "\<not> abortedAt blipEnv 16" "seek blipEnv 16 = Some (16, white)"
    "isSceneCut (lastFrameData blipAtSixteen) white"
    "length (currentSceneFrames blipAtSixteen) < MIN_SCENE_FRAMES"
    by (simp_all add: blip_defs isSceneCut_def MIN_SCENE_FRAMES_def DIFFERENCE_THRESHOLD_def
        difference_white_black)
  have kept: "blipKept = currentSceneFrames blipAtSixteen
                @ [\<lparr>data = 16, delay = 1000 / frameRate settings10\<rparr>]"
    by (simp add: blip_defs settings10_def)
  have nxt: "blipAtSeventeen = blipAtSixteen\<lparr>currentSceneFrames := blipKept,
               lastFrameData := Some white, progress := real (16 + 1) / real_of_int 26 * 100\<rparr>"
    by (simp add: blipAtSeventeen_def)
  have aft: "blipAfterLoop = stateOf (sampleLoop settings10 None blipEnv 26 (16 + 1) blipAtSeventeen)"
    by (simp add: blipAfterLoop_def)
  have long: "MIN_SCENE_FRAMES \<le> length (currentSceneFrames blipAfterLoop)"
    by (simp add: run_defs blip_defs)
  have emit: "emitScene blipEnv None blipAfterLoop = Normal blipFinal"
    by (simp add: run_defs blip_defs)
  have frames: "map data (frames (processedScenes blipFinal ! 1))
       = [10, 11, 12, 13, 14, 15, 16, 17, 18, 19, 20, 21, 22, 23, 24, 25]"
    by (simp add: run_defs blip_defs)
  note inst = short_run_survives_boundary
      [where baseName = None and final = blipFinal, OF pre kept nxt aft]
  have a: "processSample settings10 None blipEnv 26 16 blipAtSixteen = Normal blipAtSeventeen"
    by (rule conjunct1 [OF inst])
  have b: "carried blipKept (length (scenes blipAtSixteen)) blipAfterLoop"
    by (rule conjunct1 [OF conjunct2 [OF inst]])
  have c: "length (scenes blipAtSixteen) < length (scenes blipFinal)
           \<and> take (length blipKept) (frames (scenes blipFinal ! length (scenes blipAtSixteen)))
               = blipKept
           \<and> processedScenes blipFinal = scenes blipFinal"
    by (rule mp [OF conjunct2 [OF conjunct2 [OF inst]]]) (intro conjI long emit)
  show ?thesis
    by (intro conjI reach pre a b long emit conjunct1 [OF c] conjunct1 [OF conjunct2 [OF c]]
        conjunct2 [OF conjunct2 [OF c]] frames)
qed

text \<open>
  The claim as written fails on the blip input: samples 10 to 15 are black between white
  ones. At sample 16 a boundary is detected while the run holds the six frames 10 to 15.
  After seventeen samples the accumulation still holds them, followed by frame 16; and the
  run of twenty-six samples emits them as the head of its second scene.
\<close>

theorem blip_frames_reach_a_scene:
  "isSceneCut (Some black) white
   \<and> map data (currentSceneFrames (processVideo settings10 None (clip 1.7) blipEnv))
       = [10, 11, 12, 13, 14, 15, 16]
   \<and> map (map data) (map frames (processedScenes (processVideo settings10 None (clip 2.6) blipEnv)))
       = [[0, 1, 2, 3, 4, 5, 6, 7, 8, 9],
          [10, 11, 12, 13, 14, 15, 16, 17, 18, 19, 20, 21, 22, 23, 24, 25]]"
  by (simp add: run_defs blipEnv_def)

text \<open>
  Claim C4, as amended. If encoding a scene fails (the render times out), the segmentation
  run ends there: the rejection leaves the sampling loop at the sample that closed the
  scene, the handler stores the error, no later sample is processed and no later scene is
  emitted. The scenes emitted before stay published.
\<close>

theorem render_timeout_ends_run:
  "(int i < tot \<and> \<not> abortedAt e i \<and> seek e i = Some (hi, cur)
      \<and> isSceneCut (lastFrameData st) cur
      \<and> MIN_SCENE_FRAMES \<le> length (currentSceneFrames st)
      \<and> render e (currentSceneFrames st) (sceneCount st + 1) = None
    \<longrightarrow> sampleLoop settings baseName e tot i st
          = Throw (RenderTimeout (sceneCount st + 1)) (st\<lparr>sceneCount := sceneCount st + 1\<rparr>))
   \<and> (\<not> abortedAtStart e \<and> contexts e
      \<and> scaledDimensions (resolution settings) (videoWidth v) (videoHeight v) = (w, h)
      \<and> w \<noteq> 0 \<and> h \<noteq> 0
      \<and> sampleLoop settings baseName e \<lfloor>duration v * frameRate settings\<rfloor> 0 initialRun
          = Throw err st'
    \<longrightarrow> processVideo settings baseName v e = st'\<lparr>error := Some err, isProcessing := False\<rparr>)"
  using render_failure [of i tot e hi cur st settings baseName]
    thrown_run [of e settings v w h baseName err st']
  by blast


theorem render_timeout_ends_run_witness:
  "int 10 < 21 \<and> \<not> abortedAt stalledRenderEnv 10 \<and> seek stalledRenderEnv 10 = Some (10, black)
   \<and> isSceneCut (lastFrameData afterTenSamples) black
   \<and> MIN_SCENE_FRAMES \<le> length (currentSceneFrames afterTenSamples)
   \<and> render stalledRenderEnv (currentSceneFrames afterTenSamples) (sceneCount afterTenSamples + 1)
       = None
   \<and> sampleLoop settings10 None stalledRenderEnv 21 10 afterTenSamples
       = Throw (RenderTimeout 1) (afterTenSamples\<lparr>sceneCount := 1\<rparr>)
   \<and> \<not> abortedAtStart stalledRenderEnv \<and> contexts stalledRenderEnv
   \<and> scaledDimensions (resolution settings10) (videoWidth (clip 2.1)) (videoHeight (clip 2.1))
       = (640, 360)
   \<and> sampleLoop settings10 None stalledRenderEnv \<lfloor>duration (clip 2.1) * frameRate settings10\<rfloor> 0
        initialRun
       = Throw (RenderTimeout 1) (afterTenSamples\<lparr>sceneCount := 1\<rparr>)
   \<and> processVideo settings10 None (clip 2.1) stalledRenderEnv
       = afterTenSamples\<lparr>sceneCount := 1, error := Some (RenderTimeout 1), isProcessing := False\<rparr>"
proof -
  have pre: "int 10 < 21" "\<not> abortedAt stalledRenderEnv 10"
    "seek stalledRenderEnv 10 = Some (10, black)"
    "isSceneCut (lastFrameData afterTenSamples) black"
    "MIN_SCENE_FRAMES \<le> length (currentSceneFrames afterTenSamples)"
    "render stalledRenderEnv (currentSceneFrames afterTenSamples) (sceneCount afterTenSamples + 1)
       = None"
    by (simp_all add: stalledRenderEnv_def afterTenSamples_def initialRun_def isSceneCut_def
        MIN_SCENE_FRAMES_def DIFFERENCE_THRESHOLD_def difference_black_white)
  have start: "\<not> abortedAtStart stalledRenderEnv" "contexts stalledRenderEnv"
    by (simp_all add: stalledRenderEnv_def)
  have dims: "scaledDimensions (resolution settings10) (videoWidth (clip 2.1)) (videoHeight (clip 2.1))
                = (640, 360)"
    by (simp add: scaledDimensions_def settings10_def clip_def)
  have loop: "sampleLoop settings10 None stalledRenderEnv
                \<lfloor>duration (clip 2.1) * frameRate settings10\<rfloor> 0 initialRun
              = Throw (RenderTimeout 1) (afterTenSamples\<lparr>sceneCount := 1\<rparr>)"
    by (simp add: run_defs stalledRenderEnv_def afterTenSamples_def)
  have nz: "(640 :: int) \<noteq> 0" "(360 :: int) \<noteq> 0" by simp_all
  note ends = render_timeout_ends_run
      [of 10 21 stalledRenderEnv 10 black afterTenSamples settings10 None "clip 2.1" 640 360
          "RenderTimeout 1" "afterTenSamples\<lparr>sceneCount := 1\<rparr>"]
  have one: "sceneCount afterTenSamples + 1 = 1"
    by (simp add: afterTenSamples_def initialRun_def)
  have "sampleLoop settings10 None stalledRenderEnv 21 10 afterTenSamples
          = Throw (RenderTimeout (sceneCount afterTenSamples + 1))
              (afterTenSamples\<lparr>sceneCount := sceneCount afterTenSamples + 1\<rparr>)"
    using ends pre by blast
  then have inner: "sampleLoop settings10 None stalledRenderEnv 21 10 afterTenSamples
          = Throw (RenderTimeout 1) (afterTenSamples\<lparr>sceneCount := 1\<rparr>)"
    by (simp only: one)
  have outer: "processVideo settings10 None (clip 2.1) stalledRenderEnv
       = afterTenSamples\<lparr>sceneCount := 1, error := Some (RenderTimeout 1), isProcessing := False\<rparr>"
    using ends start dims nz loop by blast
  show ?thesis using pre start dims loop inner outer by blast
qed

text \<open>
  The claim as written fails on the input whose first render times out: ten white samples
  close scene 1 at sample 10, its render is rejected, and the run of twenty-one samples ends
  with that error, with no scene published and the progress left at ten samples of
  twenty-one. A run that went on would have emitted the eleven black frames as a scene.
\<close>

theorem stalled_render_stops_sampling:
  "processedScenes (processVideo settings10 None (clip 2.1) stalledRenderEnv) = []
   \<and> error (processVideo settings10 None (clip 2.1) stalledRenderEnv) = Some (RenderTimeout 1)
   \<and> progress (processVideo settings10 None (clip 2.1) stalledRenderEnv) = 10 / 21 * 100
   \<and> map data (currentSceneFrames (processVideo settings10 None (clip 2.1) stalledRenderEnv))
       = [0, 1, 2, 3, 4, 5, 6, 7, 8, 9]"
  by (simp add: run_defs stalledRenderEnv_def)




section \<open>Assembly timeline: claims\<close>

text \<open>
  Claim C2, as amended. A trim handler clamps the bound it moves and leaves the other bound
  alone: \<open>handleStartTrimChange\<close> with an index above the current \<open>trimEnd\<close> sets
  \<open>trimStart\<close> to \<open>trimEnd\<close>, and \<open>handleEndTrimChange\<close> with an index below the current
  \<open>trimStart\<close> sets \<open>trimEnd\<close> to \<open>trimStart\<close>; so the effective start becomes the old
  \<open>trimEnd\<close>, not the requested index.
\<close>

theorem trim_handlers_clamp_moved_bound:
  "(trimEnd c < i
    \<longrightarrow> trimStart (handleStartTrimChange i c) = trimEnd c
        \<and> trimEnd (handleStartTrimChange i c) = trimEnd c)
   \<and> (j < trimStart c
    \<longrightarrow> trimEnd (handleEndTrimChange j c) = trimStart c
        \<and> trimStart (handleEndTrimChange j c) = trimStart c)"
  by (simp add: handleStartTrimChange_def handleEndTrimChange_def)

theorem trim_handlers_clamp_moved_bound_witness:
  "trimEnd (timeline 1 2) < 4
   \<and> trimStart (handleStartTrimChange 4 (timeline 1 2)) = 2
   \<and> trimEnd (handleStartTrimChange 4 (timeline 1 2)) = 2
   \<and> 0 < trimStart (timeline 1 2)
   \<and> trimEnd (handleEndTrimChange 0 (timeline 1 2)) = 1
   \<and> trimStart (handleEndTrimChange 0 (timeline 1 2)) = 1"
  using trim_handlers_clamp_moved_bound [of "timeline 1 2" 4 0]
  by (simp add: timeline_def)

text \<open>
  The claim as written fails on a timeline of five frames trimmed to \<open>[0, 2]\<close>: a start
  request of 4 leaves \<open>trimEnd\<close> at 2 and sets \<open>trimStart\<close> to 2, where the claim has both
  at 4. Likewise, on \<open>[2, 4]\<close> an end request of 0 leaves \<open>trimStart\<close> at 2.
\<close>

theorem trim_start_past_end_leaves_end:
  "trimEnd (timeline 0 2) < 4
   \<and> trimEnd (handleStartTrimChange 4 (timeline 0 2)) = 2
   \<and> trimStart (handleStartTrimChange 4 (timeline 0 2)) = 2
   \<and> trimEnd (handleStartTrimChange 4 (timeline 0 2)) \<noteq> 4
   \<and> trimStart (handleEndTrimChange 0 (timeline 2 4)) = 2
   \<and> trimStart (handleEndTrimChange 0 (timeline 2 4)) \<noteq> 0"
  by (simp add: timeline_def handleStartTrimChange_def handleEndTrimChange_def)

text \<open>
  Claim C8. Every operation of the timeline keeps the trim invariant: a reorder establishes
  it for the recomputed flattened index, and a trim handler called with a position of its
  slider (from 0 to the last index of the flattened index, or 0 when that is empty)
  preserves it. The invariant is \<open>0 \<le> trimStart \<le> trimEnd < length\<close> for a non-empty
  flattened index and the range \<open>[0, 0]\<close> for an empty one; the initial state satisfies it.
\<close>

theorem trim_invariant_preserved:
  "(reorder from to c = Inr c' \<longrightarrow> trimInvariant c')
   \<and> (trimInvariant c \<and> 0 \<le> i \<and> i \<le> sliderMax c
      \<longrightarrow> trimInvariant (handleStartTrimChange i c) \<and> trimInvariant (handleEndTrimChange i c))
   \<and> trimInvariant (flattenEffect c)
   \<and> trimInvariant (initialCombiner gifs)"
proof (intro conjI impI)
  assume "reorder from to c = Inr c'"
  then obtain c1 where "c' = flattenEffect c1" using reorder_Inr by blast
  then show "trimInvariant c'" by (simp add: flattenEffect_invariant)
next
  assume a: "trimInvariant c \<and> 0 \<le> i \<and> i \<le> sliderMax c"
  show "trimInvariant (handleStartTrimChange i c)" using a by (simp add: startTrim_invariant)
  show "trimInvariant (handleEndTrimChange i c)" using a by (simp add: endTrim_invariant)
next
  show "trimInvariant (flattenEffect c)" by (rule flattenEffect_invariant)
  show "trimInvariant (initialCombiner gifs)"
    by (simp add: trimInvariant_def initialCombiner_def)
qed

theorem trim_invariant_preserved_witness:
  "reorder 1 0 (timeline 1 3)
     = Inr (flattenEffect ((timeline 1 3)\<lparr>orderedGifs := [clipB, clipA]\<rparr>))
   \<and> trimInvariant (flattenEffect ((timeline 1 3)\<lparr>orderedGifs := [clipB, clipA]\<rparr>))
   \<and> trimInvariant (timeline 1 3) \<and> (0 :: int) \<le> 4 \<and> 4 \<le> sliderMax (timeline 1 3)
   \<and> trimInvariant (handleStartTrimChange 4 (timeline 1 3))
   \<and> trimInvariant (handleEndTrimChange 4 (timeline 1 3))
   \<and> trimInvariant (initialCombiner ([] :: nat ParsedGifWithMeta list))
   \<and> 0 \<le> sliderMax (initialCombiner ([] :: nat ParsedGifWithMeta list))
   \<and> trimInvariant (handleStartTrimChange 0 (initialCombiner ([] :: nat ParsedGifWithMeta list)))
   \<and> trimInvariant (handleEndTrimChange 0 (initialCombiner ([] :: nat ParsedGifWithMeta list)))"
proof -
  have r: "reorder 1 0 (timeline 1 3)
             = Inr (flattenEffect ((timeline 1 3)\<lparr>orderedGifs := [clipB, clipA]\<rparr>))"
    by (simp add: reorder_def handleDragSort_def timeline_def)
  have t: "trimInvariant (timeline 1 3)" "(0 :: int) \<le> 4" "4 \<le> sliderMax (timeline 1 3)"
    by (simp_all add: trimInvariant_def sliderMax_def timeline_def clipA_def clipB_def)
  have n: "trimInvariant (initialCombiner ([] :: nat ParsedGifWithMeta list))"
    "(0 :: int) \<le> 0" "0 \<le> sliderMax (initialCombiner ([] :: nat ParsedGifWithMeta list))"
    by (simp_all add: trimInvariant_def sliderMax_def initialCombiner_def)
  note first = trim_invariant_preserved
      [of 1 0 "timeline 1 3" "flattenEffect ((timeline 1 3)\<lparr>orderedGifs := [clipB, clipA]\<rparr>)" 4]
  note second = trim_invariant_preserved
      [of 0 0 "initialCombiner ([] :: nat ParsedGifWithMeta list)" _ 0]
  have a: "trimInvariant (flattenEffect ((timeline 1 3)\<lparr>orderedGifs := [clipB, clipA]\<rparr>))"
    by (rule mp [OF conjunct1 [OF first] r])
  have b: "trimInvariant (handleStartTrimChange 4 (timeline 1 3))
           \<and> trimInvariant (handleEndTrimChange 4 (timeline 1 3))"
    by (rule mp [OF conjunct1 [OF conjunct2 [OF first]]]) (intro conjI t)
  have c: "trimInvariant (handleStartTrimChange 0 (initialCombiner ([] :: nat ParsedGifWithMeta list)))
           \<and> trimInvariant (handleEndTrimChange 0 (initialCombiner ([] :: nat ParsedGifWithMeta list)))"
    by (rule mp [OF conjunct1 [OF conjunct2 [OF second]]]) (intro conjI n)
  show ?thesis
    by (intro conjI r a t conjunct1 [OF b] conjunct2 [OF b] n(1) n(3)
        conjunct1 [OF c] conjunct2 [OF c])
qed

text \<open>
  Claim C9. A reorder recomputes the flattened index from the new source order and resets
  the trim range to its full span \<open>[0, length - 1]\<close>, or \<open>[0, 0]\<close> when it is empty; the
  frames it then hands to the encoder are the whole flattened index. In any state that
  satisfies the trim invariant, the frames handed to the encoder are the flattened frames at
  the indices \<open>trimStart\<close> to \<open>trimEnd\<close> inclusive, \<open>trimEnd - trimStart + 1\<close> of them, and
  with a worker script and a non-empty timeline such a request is made.
\<close>

theorem reorder_resets_trim_and_active_range:
  "(reorder from to c = Inr c'
    \<longrightarrow> flatFrames c' = concat (map gifFrames (orderedGifs c'))
        \<and> trimStart c' = 0
        \<and> trimEnd c' = (if flatFrames c' = [] then 0 else int (length (flatFrames c')) - 1)
        \<and> (\<forall>req. generateCombinedGif c' = Some req \<longrightarrow> addedFrames req = flatFrames c'))
   \<and> (trimInvariant c \<and> generateCombinedGif c = Some req
    \<longrightarrow> addedFrames req
          = map (\<lambda>k. flatFrames c ! k) [nat (trimStart c)..<nat (trimEnd c + 1)]
        \<and> int (length (addedFrames req)) = trimEnd c - trimStart c + 1)
   \<and> (trimInvariant c \<and> flatFrames c \<noteq> [] \<and> orderedGifs c \<noteq> [] \<and> workerUrl c \<noteq> None
    \<longrightarrow> generateCombinedGif c \<noteq> None)"
proof (intro conjI impI allI)
  assume "reorder from to c = Inr c'"
  then obtain c1 where c1: "c' = flattenEffect c1" using reorder_Inr by blast
  show "flatFrames c' = concat (map gifFrames (orderedGifs c'))"
    unfolding c1 using flattenEffect_span [of c1] by simp
  show "trimStart c' = 0"
    unfolding c1 using flattenEffect_span [of c1] by simp
  show "trimEnd c' = (if flatFrames c' = [] then 0 else int (length (flatFrames c')) - 1)"
    unfolding c1 by (simp add: flattenEffect_def Let_def)
  fix r assume g: "generateCombinedGif c' = Some r"
  have inv: "trimInvariant c'" unfolding c1 by (rule flattenEffect_invariant)
  have ne: "flatFrames c' \<noteq> []"
    using g by (auto simp: generateCombinedGif_def split: if_splits)
  have s: "trimStart c' = 0" "trimEnd c' = int (length (flatFrames c')) - 1"
    using ne unfolding c1 by (simp_all add: flattenEffect_def Let_def)
  have "addedFrames r = map (\<lambda>k. flatFrames c' ! k) [nat (trimStart c')..<nat (trimEnd c' + 1)]"
    using generate_frames [OF inv g] by simp
  then show "addedFrames r = flatFrames c'"
    by (simp add: s map_nth)
next
  assume a: "trimInvariant c \<and> generateCombinedGif c = Some req"
  show "addedFrames req = map (\<lambda>k. flatFrames c ! k) [nat (trimStart c)..<nat (trimEnd c + 1)]"
    using a generate_frames [of c req] by blast
  show "int (length (addedFrames req)) = trimEnd c - trimStart c + 1"
    using a generate_frames [of c req] by blast
next
  assume "trimInvariant c \<and> flatFrames c \<noteq> [] \<and> orderedGifs c \<noteq> [] \<and> workerUrl c \<noteq> None"
  then show "generateCombinedGif c \<noteq> None"
    using generate_Some [of c] by simp
qed

theorem reorder_resets_trim_and_active_range_witness:
  "reorder 1 0 (timeline 1 3)
     = Inr (flattenEffect ((timeline 1 3)\<lparr>orderedGifs := [clipB, clipA]\<rparr>))
   \<and> map data (flatFrames (flattenEffect ((timeline 1 3)\<lparr>orderedGifs := [clipB, clipA]\<rparr>)))
       = [2, 3, 4, 0, 1]
   \<and> trimStart (flattenEffect ((timeline 1 3)\<lparr>orderedGifs := [clipB, clipA]\<rparr>)) = 0
   \<and> trimEnd (flattenEffect ((timeline 1 3)\<lparr>orderedGifs := [clipB, clipA]\<rparr>)) = 4
   \<and> trimInvariant (timeline 1 3)
   \<and> generateCombinedGif (timeline 1 3)
       = Some \<lparr>gifWidth = 320, gifHeight = 240,
               addedFrames = [\<lparr>data = 1, delay = 20\<rparr>, \<lparr>data = 2, delay = 30\<rparr>,
                              \<lparr>data = 3, delay = 40\<rparr>]\<rparr>
   \<and> int (length [\<lparr>data = 1 :: nat, delay = 20\<rparr>, \<lparr>data = 2, delay = 30\<rparr>, \<lparr>data = 3, delay = 40\<rparr>])
       = trimEnd (timeline 1 3) - trimStart (timeline 1 3) + 1"
proof -
  let ?req = "\<lparr>gifWidth = 320, gifHeight = 240,
               addedFrames = [\<lparr>data = 1 :: nat, delay = 20\<rparr>, \<lparr>data = 2, delay = 30\<rparr>,
                              \<lparr>data = 3, delay = 40\<rparr>]\<rparr>"
  have r: "reorder 1 0 (timeline 1 3)
             = Inr (flattenEffect ((timeline 1 3)\<lparr>orderedGifs := [clipB, clipA]\<rparr>))"
    by (simp add: reorder_def handleDragSort_def timeline_def)
  have f: "map data (flatFrames (flattenEffect ((timeline 1 3)\<lparr>orderedGifs := [clipB, clipA]\<rparr>)))
             = [2, 3, 4, 0, 1]"
    "trimEnd (flattenEffect ((timeline 1 3)\<lparr>orderedGifs := [clipB, clipA]\<rparr>)) = 4"
    by (simp_all add: flattenEffect_def timeline_def clipA_def clipB_def)
  have t: "trimInvariant (timeline 1 3)"
    by (simp add: trimInvariant_def timeline_def clipA_def clipB_def)
  have g: "generateCombinedGif (timeline 1 3) = Some ?req"
    by (simp add: generateCombinedGif_def slice_array_def timeline_def clipA_def clipB_def)
  have ne: "flatFrames (timeline 1 3) \<noteq> []" "orderedGifs (timeline 1 3) \<noteq> []"
    "workerUrl (timeline 1 3) \<noteq> None"
    by (simp_all add: timeline_def clipA_def)
  note inst = reorder_resets_trim_and_active_range
      [of 1 0 "timeline 1 3" "flattenEffect ((timeline 1 3)\<lparr>orderedGifs := [clipB, clipA]\<rparr>)" ?req]
  have "trimStart (flattenEffect ((timeline 1 3)\<lparr>orderedGifs := [clipB, clipA]\<rparr>)) = 0"
    using inst r by blast
  moreover have "int (length (addedFrames ?req))
                   = trimEnd (timeline 1 3) - trimStart (timeline 1 3) + 1"
    using inst t g by blast
  ultimately show ?thesis using r f t g ne by simp
qed



end
